theory Spec2Isabelle
  imports
    Main
    "HOL-Library.Sublist"
    "HOL-Library.Word"
    "HOL-Library.Char_ord"
    "HOL-Library.List_Lexorder"
begin

chapter \<open>MusicPlayer: catalog, search filter and navigation of \<^verbatim>\<open>MainWindow.cpp\<close>\<close>

text \<open>
  The program is a Qt main window. Its own logic is the text normaliser, the filter proxy,
  the track catalog with its folder scan, and the playback and navigation slots. Each of
  these is embedded below as a function on an explicit window state; the Qt classes the code
  calls (\<^verbatim>\<open>QString\<close>, \<^verbatim>\<open>QFileInfo\<close>, \<^verbatim>\<open>QDirIterator\<close>,
  \<^verbatim>\<open>QRandomGenerator\<close>, \<^verbatim>\<open>QMediaPlayer\<close>, the proxy model and the list view)
  are modelled by what their documentation says they compute.
\<close>

section \<open>Text: the \<^verbatim>\<open>QString\<close> operations used by the code\<close>

text \<open>
  A text is a \<^typ>\<open>string\<close>, one \<^typ>\<open>char\<close> per code unit, read as a code point
  \<open>U+0000\<close> to \<open>U+00FF\<close> (Latin-1). Within that range:
  \<^item> \<^verbatim>\<open>QString::toLower\<close> maps \<open>A-Z\<close>, \<open>U+00C0-U+00D6\<close> and \<open>U+00D8-U+00DE\<close>
    to the code point 32 above and leaves every other character alone;
  \<^item> \<^verbatim>\<open>QChar::isSpace\<close> holds for \<open>U+0009-U+000D\<close>, \<open>U+0020\<close>, \<open>U+0085\<close>
    and \<open>U+00A0\<close>;
  \<^item> the class \<^verbatim>\<open>\s\<close> of \<^verbatim>\<open>QRegularExpression\<close> (no Unicode-properties option)
    holds for \<open>U+0009-U+000D\<close> and \<open>U+0020\<close>.
\<close>

definition toLower_char :: "char \<Rightarrow> char" where
  "toLower_char c =
     (let n = (of_char c :: nat)
      in if (65 \<le> n \<and> n \<le> 90) \<or> (192 \<le> n \<and> n \<le> 214) \<or> (216 \<le> n \<and> n \<le> 222)
         then char_of (n + 32) else c)"

definition toLower :: "string \<Rightarrow> string" where
  "toLower s = map toLower_char s"

text \<open>\<^verbatim>\<open>text.replace(a, b)\<close> for two characters.\<close>

definition replace_char :: "char \<Rightarrow> char \<Rightarrow> string \<Rightarrow> string" where
  "replace_char a b s = map (\<lambda>c. if c = a then b else c) s"

definition isSpace :: "char \<Rightarrow> bool" where
  "isSpace c =
     (let n = (of_char c :: nat) in n = 32 \<or> (9 \<le> n \<and> n \<le> 13) \<or> n = 133 \<or> n = 160)"

definition regex_space :: "char \<Rightarrow> bool" where
  "regex_space c = (let n = (of_char c :: nat) in n = 32 \<or> (9 \<le> n \<and> n \<le> 13))"

text \<open>
  \<^verbatim>\<open>text.replace(QRegularExpression("\\s+"), " ")\<close>: every maximal run of characters of
  the class is replaced by one space.
\<close>

function replace_runs :: "(char \<Rightarrow> bool) \<Rightarrow> string \<Rightarrow> string" where
  "replace_runs p [] = []"
| "replace_runs p (c # cs) =
     (if p c then CHR '' '' # replace_runs p (dropWhile p cs) else c # replace_runs p cs)"
  by pat_completeness auto
termination
  by (relation "measure (\<lambda>(p, s). length s)") (auto simp: less_Suc_eq_le length_dropWhile_le)

text \<open>
  \<^verbatim>\<open>QString::simplified\<close>: whitespace (\<^const>\<open>isSpace\<close>) is removed from both ends and
  every internal run of it becomes one space. \<open>words\<close> are the maximal runs of
  non-whitespace, \<open>join_space\<close> puts one space between them.
\<close>

function words :: "string \<Rightarrow> string list" where
  "words s =
     (case dropWhile isSpace s of
        [] \<Rightarrow> []
      | c # cs \<Rightarrow>
          (c # takeWhile (\<lambda>x. \<not> isSpace x) cs) # words (dropWhile (\<lambda>x. \<not> isSpace x) cs))"
  by pat_completeness auto
termination
proof (relation "measure length")
  show "wf (measure length)" by simp
next
  fix s :: string and c cs
  assume "dropWhile isSpace s = c # cs"
  then have "length (c # cs) \<le> length s"
    by (metis length_dropWhile_le)
  moreover have "length (dropWhile (\<lambda>x. \<not> isSpace x) cs) \<le> length cs"
    by (rule length_dropWhile_le)
  ultimately show "(dropWhile (\<lambda>x. \<not> isSpace x) cs, s) \<in> measure length"
    by simp
qed

declare words.simps [simp del]

fun join_space :: "string list \<Rightarrow> string" where
  "join_space [] = []"
| "join_space [w] = w"
| "join_space (w # v # ws) = w @ CHR '' '' # join_space (v # ws)"

definition simplified :: "string \<Rightarrow> string" where
  "simplified s = join_space (words s)"

text \<open>\<^verbatim>\<open>normalizeText\<close>, lines 35 to 41.\<close>

definition normalizeText :: "string \<Rightarrow> string" where
  "normalizeText text =
     simplified (replace_runs regex_space
       (replace_char (CHR ''-'') (CHR '' '') (replace_char (CHR ''_'') (CHR '' '') (toLower text))))"

text \<open>
  The three character-wise steps of \<^const>\<open>normalizeText\<close> as one function on
  characters, and the shape of a word; both are used in the proofs only.
\<close>

definition norm_char :: "char \<Rightarrow> char" where
  "norm_char c =
     (let l = toLower_char c;
          u = (if l = CHR ''_'' then CHR '' '' else l)
      in if u = CHR ''-'' then CHR '' '' else u)"

definition word :: "string \<Rightarrow> bool" where
  "word w = (w \<noteq> [] \<and> (\<forall>c\<in>set w. \<not> isSpace c))"

text \<open>A text in which no two neighbours are both whitespace.\<close>

fun noDoubleSpace :: "string \<Rightarrow> bool" where
  "noDoubleSpace (a # b # cs) = (\<not> (isSpace a \<and> isSpace b) \<and> noDoubleSpace (b # cs))"
| "noDoubleSpace cs = True"

section \<open>File names: the \<^verbatim>\<open>QFileInfo\<close> parts used by the code\<close>

text \<open>
  Paths are written with \<open>/\<close> and are taken as they stand (clean, absolute, as the
  directory iterator yields them under an absolute root):
  \<^item> \<open>fileName\<close> is what follows the last \<open>/\<close>;
  \<^item> \<open>completeBaseName\<close> is the file name up to, not including, its last \<open>.\<close>
    (the whole name when it has none);
  \<^item> \<open>absolutePath\<close> is what precedes the last \<open>/\<close>, and \<open>/\<close> itself for a file of
    the root directory;
  \<^item> \<open>suffix\<close> is what follows the last \<open>.\<close> of the file name (empty when it has none).
\<close>

definition fileName :: "string \<Rightarrow> string" where
  "fileName p = rev (takeWhile (\<lambda>c. c \<noteq> CHR ''/'') (rev p))"

definition completeBaseName :: "string \<Rightarrow> string" where
  "completeBaseName p =
     (let n = fileName p
      in if CHR ''.'' \<in> set n then rev (tl (dropWhile (\<lambda>c. c \<noteq> CHR ''.'') (rev n))) else n)"

definition absolutePath :: "string \<Rightarrow> string" where
  "absolutePath p =
     (let d = rev (tl (dropWhile (\<lambda>c. c \<noteq> CHR ''/'') (rev p)))
      in if d = [] then ''/'' else d)"

definition suffix_of :: "string \<Rightarrow> string" where
  "suffix_of n =
     (if CHR ''.'' \<in> set n then rev (takeWhile (\<lambda>c. c \<noteq> CHR ''.'') (rev n)) else [])"

section \<open>The track catalog\<close>

text \<open>
  A row of the \<^verbatim>\<open>QStandardItemModel\<close>: the item's text and its two data roles
  \<^verbatim>\<open>kFilePathRole\<close> and \<^verbatim>\<open>kSearchRole\<close>.
\<close>

record Track =
  filePath :: string
  displayTitle :: string
  searchKey :: string

datatype PlaybackState = StoppedState | PlayingState | PausedState

datatype MediaStatus =
  NoMedia | LoadingMedia | LoadedMedia | StalledMedia | BufferingMedia | BufferedMedia
  | EndOfMedia | InvalidMedia

text \<open>
  The members of \<^verbatim>\<open>MainWindow\<close> that catalog, filter and navigation read and write
  (named as in the header, without the closing underscore), with the state of the objects
  they point to: the rows of \<^verbatim>\<open>model_\<close>, the two fields of the filter proxy, the
  current index of \<^verbatim>\<open>listView_\<close> (a row of the proxy, \<open>None\<close> when invalid), and the
  source and playback state of \<^verbatim>\<open>player_\<close> (an empty source is no source). The
  labels, the sliders and the position within a track are display only and are left out.
\<close>

record MainWindow =
  model :: "Track list"
  trackSet :: "string set"
  filterText :: string
  tokens :: "string list"
  currentIndex :: "nat option"
  source :: string
  playbackState :: PlaybackState
  shuffleEnabled :: bool
  repeatMode :: int
  currentFilePath :: string
  playHistory :: "string list"

text \<open>The window after \<^verbatim>\<open>setupUi\<close> and the constructor's assignments, before the first scan.\<close>

definition initial :: MainWindow where
  "initial =
     \<lparr> model = [], trackSet = {}, filterText = [], tokens = [], currentIndex = None,
       source = [], playbackState = StoppedState, shuffleEnabled = False, repeatMode = 0,
       currentFilePath = [], playHistory = [] \<rparr>"

text \<open>\<^verbatim>\<open>MainWindow::addTrack\<close>, lines 307 to 316.\<close>

definition addTrack :: "string \<Rightarrow> MainWindow \<Rightarrow> MainWindow" where
  "addTrack fp s =
     (if fp \<in> trackSet s then s
      else s\<lparr> trackSet := insert fp (trackSet s),
              model := model s @
                [\<lparr> filePath = fp,
                   displayTitle = completeBaseName fp,
                   searchKey = normalizeText
                     (completeBaseName fp @ '' '' @ fileName fp @ '' '' @ absolutePath fp) \<rparr>] \<rparr>)"

text \<open>\<^verbatim>\<open>model_->rowCount()\<close>, the number shown by \<^verbatim>\<open>updateCounts\<close>.\<close>

definition count :: "MainWindow \<Rightarrow> nat" where
  "count s = length (model s)"

section \<open>The search filter: \<^verbatim>\<open>TrackFilterProxy\<close>\<close>

text \<open>\<^verbatim>\<open>QString::split(sep)\<close>, and the same with \<^verbatim>\<open>Qt::SkipEmptyParts\<close>.\<close>

fun split :: "char \<Rightarrow> string \<Rightarrow> string list" where
  "split sep [] = [[]]"
| "split sep (c # cs) =
     (if c = sep then [] # split sep cs
      else (case split sep cs of [] \<Rightarrow> [[c]] | w # ws \<Rightarrow> (c # w) # ws))"

definition split_SkipEmptyParts :: "char \<Rightarrow> string \<Rightarrow> string list" where
  "split_SkipEmptyParts sep s = filter (\<lambda>w. w \<noteq> []) (split sep s)"

text \<open>\<^verbatim>\<open>key.contains(token)\<close>: the token occurs in the key as a contiguous part.\<close>

definition contains :: "string \<Rightarrow> string \<Rightarrow> bool" where
  "contains key token = sublist token key"

text \<open>\<^verbatim>\<open>setFilterText\<close>, lines 51 to 55.\<close>

definition setFilterText :: "string \<Rightarrow> MainWindow \<Rightarrow> MainWindow" where
  "setFilterText text s =
     s\<lparr> filterText := normalizeText text,
        tokens := split_SkipEmptyParts (CHR '' '') (normalizeText text) \<rparr>"

text \<open>\<^verbatim>\<open>filterAcceptsRow\<close>, lines 58 to 67, on the tokens and the row it reads.\<close>

definition filterAcceptsRow :: "string list \<Rightarrow> Track \<Rightarrow> bool" where
  "filterAcceptsRow toks t =
     (if toks = [] then True
      else let key = searchKey t
           in if key = [] then True
              else list_all (\<lambda>token. contains key token) toks)"

text \<open>
  The rows of the proxy: the rows of the model that the filter accepts, sorted on their text
  without regard to case (\<^verbatim>\<open>setSortCaseSensitivity(Qt::CaseInsensitive)\<close>,
  \<^verbatim>\<open>sort(0)\<close>, kept sorted by \<^verbatim>\<open>setDynamicSortFilter(true)\<close>).
\<close>

definition visibleRows :: "MainWindow \<Rightarrow> Track list" where
  "visibleRows s =
     sort_key (\<lambda>t. toLower (displayTitle t)) (filter (filterAcceptsRow (tokens s)) (model s))"

text \<open>\<^verbatim>\<open>filter_->rowCount()\<close>.\<close>

definition rowCount :: "MainWindow \<Rightarrow> int" where
  "rowCount s = int (length (visibleRows s))"

text \<open>\<^verbatim>\<open>filter_->index(row, 0)\<close>: invalid unless the row exists.\<close>

definition index :: "MainWindow \<Rightarrow> int \<Rightarrow> nat option" where
  "index s r = (if 0 \<le> r \<and> r < rowCount s then Some (nat r) else None)"

text \<open>\<^verbatim>\<open>QModelIndex::row()\<close>: \<open>-1\<close> for the invalid index.\<close>

definition row :: "nat option \<Rightarrow> int" where
  "row i = (case i of None \<Rightarrow> - 1 | Some r \<Rightarrow> int r)"

text \<open>
  \<^verbatim>\<open>filter_->mapToSource(i).data(kFilePathRole).toString()\<close> for row \<open>r\<close> of the
  proxy; a row that does not exist has no data, which reads as the empty string.
\<close>

definition rowFilePath :: "MainWindow \<Rightarrow> nat \<Rightarrow> string" where
  "rowFilePath s r = (if r < length (visibleRows s) then filePath (visibleRows s ! r) else [])"

section \<open>The folder scanner\<close>

text \<open>
  A directory holds regular files and directories; each has a name and is hidden or not
  (on Unix, hidden is a name that starts with a dot).
\<close>

datatype entry = File string bool | Dir string bool "entry list"

text \<open>
  The filter flags of \<^verbatim>\<open>QDir\<close> that decide what an iterator over such a tree lists:
  \<open>Files\<close> lists files, \<open>Hidden\<close> lists hidden entries as well, \<open>CaseSensitive\<close> makes
  the name filters case sensitive.
\<close>

datatype QDirFilter = Files | Hidden | CaseSensitive

text \<open>A wildcard of \<^verbatim>\<open>QDir\<close> name filters, with \<open>*\<close> and \<open>?\<close>.\<close>

fun wildcardMatch :: "string \<Rightarrow> string \<Rightarrow> bool" where
  "wildcardMatch [] s = (s = [])"
| "wildcardMatch (p # ps) [] = (p = CHR ''*'' \<and> wildcardMatch ps [])"
| "wildcardMatch (p # ps) (c # cs) =
     (if p = CHR ''*'' then wildcardMatch ps (c # cs) \<or> wildcardMatch (p # ps) cs
      else (p = CHR ''?'' \<or> p = c) \<and> wildcardMatch ps cs)"

definition matchesFilters :: "string list \<Rightarrow> QDirFilter set \<Rightarrow> string \<Rightarrow> bool" where
  "matchesFilters nameFilters filters name =
     list_ex (\<lambda>pat. if CaseSensitive \<in> filters then wildcardMatch pat name
                    else wildcardMatch (toLower pat) (toLower name)) nameFilters"

definition joinPath :: "string \<Rightarrow> string \<Rightarrow> string" where
  "joinPath dir name = (if dir \<noteq> [] \<and> last dir = CHR ''/'' then dir @ name else dir @ ''/'' @ name)"

text \<open>
  \<^verbatim>\<open>QDirIterator it(path, nameFilters, filters, flags)\<close> run to its end: the paths that
  \<^verbatim>\<open>it.next()\<close> returns, in order, for the entries of the directory \<open>dir\<close>. The
  Boolean is the flag \<^verbatim>\<open>QDirIterator::Subdirectories\<close>. A hidden file is listed, and
  a hidden directory entered, only under \<open>Hidden\<close>.
\<close>

fun iterate :: "string list \<Rightarrow> QDirFilter set \<Rightarrow> bool \<Rightarrow> string \<Rightarrow> entry \<Rightarrow> string list" where
  "iterate nf fl sub dir (File name hidden) =
     (if Files \<in> fl \<and> (Hidden \<in> fl \<or> \<not> hidden) \<and> matchesFilters nf fl name
      then [joinPath dir name] else [])"
| "iterate nf fl sub dir (Dir name hidden es) =
     (if sub \<and> (Hidden \<in> fl \<or> \<not> hidden)
      then concat (map (iterate nf fl sub (joinPath dir name)) es) else [])"

definition QDirIterator ::
    "string \<Rightarrow> string list \<Rightarrow> QDirFilter set \<Rightarrow> bool \<Rightarrow> entry list \<Rightarrow> string list" where
  "QDirIterator path nf fl sub es = concat (map (iterate nf fl sub path) es)"

definition kFilters :: "string list" where
  "kFilters = [''*.mp3'', ''*.flac'', ''*.wav'', ''*.ogg'', ''*.m4a'', ''*.aac'']"

text \<open>
  \<^verbatim>\<open>MainWindow::scanFolder\<close>, lines 300 to 305, on the directory \<open>path\<close> whose entries
  are \<open>es\<close>. The closing \<^verbatim>\<open>filter_->sort(0)\<close> changes no member: the rows of the
  proxy are always read sorted.
\<close>

definition scanFolder :: "string \<Rightarrow> entry list \<Rightarrow> MainWindow \<Rightarrow> MainWindow" where
  "scanFolder path es s = fold addTrack (QDirIterator path kFilters {Files} True es) s"

text \<open>
  In the words of the specification: every regular file under the root, with its path, its
  name, and whether it is hidden or lies below a hidden directory; and the allow-list of
  extensions, matched without regard to case.
\<close>

fun filesUnder :: "bool \<Rightarrow> string \<Rightarrow> entry \<Rightarrow> (string \<times> string \<times> bool) list" where
  "filesUnder h dir (File name hidden) = [(joinPath dir name, name, h \<or> hidden)]"
| "filesUnder h dir (Dir name hidden es) =
     concat (map (filesUnder (h \<or> hidden) (joinPath dir name)) es)"

definition regularFiles :: "string \<Rightarrow> entry list \<Rightarrow> (string \<times> string \<times> bool) list" where
  "regularFiles root es = concat (map (filesUnder False root) es)"

definition allowList :: "string list" where
  "allowList = [''mp3'', ''flac'', ''wav'', ''ogg'', ''m4a'', ''aac'']"

definition hasAllowedExtension :: "string \<Rightarrow> bool" where
  "hasAllowedExtension name = (suffix_of (toLower name) \<in> set allowList)"

text \<open>
  The files the scan is to add: those with an allowed extension that are not hidden and do
  not lie below a hidden directory.
\<close>

definition listed :: "string \<times> string \<times> bool \<Rightarrow> bool" where
  "listed f = (case f of (p, n, h) \<Rightarrow> \<not> h \<and> hasAllowedExtension n)"

section \<open>Playback and navigation\<close>

text \<open>
  The media engine is ideal: \<^verbatim>\<open>setSource\<close> followed by \<^verbatim>\<open>play\<close> leaves the player
  playing that source, \<^verbatim>\<open>pause\<close> leaves it paused and \<^verbatim>\<open>stop\<close> stopped.
\<close>

text \<open>The row that the loop of lines 335 to 340 selects: the first one with this path.\<close>

fun findRow :: "string \<Rightarrow> Track list \<Rightarrow> nat option" where
  "findRow fp [] = None"
| "findRow fp (t # ts) = (if filePath t = fp then Some 0 else map_option Suc (findRow fp ts))"

text \<open>
  \<^verbatim>\<open>MainWindow::playTrack\<close>, lines 325 to 341. Setting the current index makes the
  view call \<^verbatim>\<open>updateSelectionLabel\<close>, which writes labels only.
\<close>

definition playTrack :: "string \<Rightarrow> bool \<Rightarrow> MainWindow \<Rightarrow> MainWindow" where
  "playTrack fp recordHistory s =
     (if fp = [] then s
      else
        let s1 = s\<lparr> source := fp, playbackState := PlayingState, currentFilePath := fp \<rparr>;
            s2 = (if recordHistory \<and> (playHistory s1 = [] \<or> last (playHistory s1) \<noteq> fp)
                  then s1\<lparr> playHistory := playHistory s1 @ [fp] \<rparr> else s1)
        in case findRow fp (visibleRows s2) of
             None \<Rightarrow> s2
           | Some r \<Rightarrow> s2\<lparr> currentIndex := Some r \<rparr>)"

text \<open>\<^verbatim>\<open>MainWindow::playIndex\<close>, lines 320 to 323, and \<^verbatim>\<open>playSelected\<close>, line 318.\<close>

definition playIndex :: "nat option \<Rightarrow> MainWindow \<Rightarrow> MainWindow" where
  "playIndex proxyIndex s =
     (case proxyIndex of None \<Rightarrow> s | Some r \<Rightarrow> playTrack (rowFilePath s r) True s)"

definition playSelected :: "MainWindow \<Rightarrow> MainWindow" where
  "playSelected s = playIndex (currentIndex s) s"

text \<open>\<^verbatim>\<open>MainWindow::playPause\<close>, lines 343 to 348.\<close>

definition playPause :: "MainWindow \<Rightarrow> MainWindow" where
  "playPause s =
     (if playbackState s = PlayingState then s\<lparr> playbackState := PausedState \<rparr>
      else if source s \<noteq> [] then s\<lparr> playbackState := PlayingState \<rparr>
      else if currentIndex s \<noteq> None then playSelected s
      else if rowCount s > 0 then playIndex (index s 0) s
      else s)"

text \<open>
  \<^verbatim>\<open>QRandomGenerator::bounded(highest)\<close> for a positive \<open>highest\<close>: the generator's
  next 32-bit value \<open>g\<close>, scaled down by \<open>g * highest / 2^32\<close>.
\<close>

definition bounded :: "32 word \<Rightarrow> int \<Rightarrow> int" where
  "bounded g highest = (uint g * highest) div 2 ^ 32"

text \<open>
  The local \<^verbatim>\<open>nextRow\<close> of \<^verbatim>\<open>playNext\<close> after line 354, from the row count, the row of
  the current index, the two mode members and the generator's draw; \<open>-1\<close> is no row.
\<close>

definition nextRow :: "int \<Rightarrow> int \<Rightarrow> bool \<Rightarrow> int \<Rightarrow> 32 word \<Rightarrow> int" where
  "nextRow totalRows cur shuffle rm g =
     (let n = (if shuffle then bounded g totalRows else cur + 1)
      in if n \<ge> totalRows then (if rm = 1 then 0 else - 1) else n)"

text \<open>\<^verbatim>\<open>MainWindow::playNext\<close>, lines 350 to 356.\<close>

definition playNext :: "32 word \<Rightarrow> MainWindow \<Rightarrow> MainWindow" where
  "playNext g s =
     (let totalRows = rowCount s
      in if totalRows = 0 then s
         else let n = nextRow totalRows (row (currentIndex s)) (shuffleEnabled s) (repeatMode s) g
              in if n \<noteq> - 1 then playIndex (index s n) s else s)"

text \<open>The local \<^verbatim>\<open>prevRow\<close> of \<^verbatim>\<open>playPrevious\<close> after line 361.\<close>

definition prevRow :: "int \<Rightarrow> int \<Rightarrow> int \<Rightarrow> int" where
  "prevRow totalRows cur rm =
     (let p = cur - 1
      in if p < 0 then (if rm = 1 then totalRows - 1 else - 1) else p)"

text \<open>\<^verbatim>\<open>MainWindow::playPrevious\<close>, lines 358 to 363.\<close>

definition playPrevious :: "MainWindow \<Rightarrow> MainWindow" where
  "playPrevious s =
     (if length (playHistory s) \<ge> 2
      then let s1 = s\<lparr> playHistory := butlast (playHistory s) \<rparr>
           in playTrack (last (playHistory s1)) False s1
      else let p = prevRow (rowCount s) (row (currentIndex s)) (repeatMode s)
           in if p \<noteq> - 1 then playIndex (index s p) s else s)"

text \<open>\<^verbatim>\<open>stop\<close>, \<^verbatim>\<open>handleMediaStatus\<close>, \<^verbatim>\<open>toggleShuffle\<close> and \<^verbatim>\<open>cycleRepeat\<close>.\<close>

definition stop :: "MainWindow \<Rightarrow> MainWindow" where
  "stop s = s\<lparr> playbackState := StoppedState \<rparr>"

definition handleMediaStatus :: "MediaStatus \<Rightarrow> 32 word \<Rightarrow> MainWindow \<Rightarrow> MainWindow" where
  "handleMediaStatus status g s =
     (if status = EndOfMedia
      then (if repeatMode s = 2 then playTrack (currentFilePath s) False s else playNext g s)
      else s)"

definition toggleShuffle :: "MainWindow \<Rightarrow> MainWindow" where
  "toggleShuffle s = s\<lparr> shuffleEnabled := \<not> shuffleEnabled s \<rparr>"

definition cycleRepeat :: "MainWindow \<Rightarrow> MainWindow" where
  "cycleRepeat s = s\<lparr> repeatMode := (repeatMode s + 1) mod 3 \<rparr>"

section \<open>The states the window can reach\<close>

text \<open>
  An index of the list view is valid for a state when it is invalid (\<open>None\<close>) or names a
  row of the proxy.
\<close>

definition validIndex :: "MainWindow \<Rightarrow> nat option \<Rightarrow> bool" where
  "validIndex s i = (case i of None \<Rightarrow> True | Some r \<Rightarrow> r < length (visibleRows s))"

text \<open>
  The window starts in \<^const>\<open>initial\<close> and moves by its slots. Two kinds of step come
  from outside the code: the list view changes its current index (the user selects a row,
  or the view re-positions the index after the rows of the proxy changed; which row it
  picks is the view's business, so every valid index is allowed), and the player changes
  its playback state by itself (it stops at the end of the media).
\<close>

inductive reachable :: "MainWindow \<Rightarrow> bool" where
  r_initial: "reachable initial"
| r_scanFolder:
    "reachable s \<Longrightarrow> validIndex (scanFolder path es s) i \<Longrightarrow>
     reachable ((scanFolder path es s)\<lparr> currentIndex := i \<rparr>)"
| r_setFilterText:
    "reachable s \<Longrightarrow> validIndex (setFilterText text s) i \<Longrightarrow>
     reachable ((setFilterText text s)\<lparr> currentIndex := i \<rparr>)"
| r_currentChanged:
    "reachable s \<Longrightarrow> validIndex s i \<Longrightarrow> reachable (s\<lparr> currentIndex := i \<rparr>)"
| r_playerState:
    "reachable s \<Longrightarrow> reachable (s\<lparr> playbackState := st \<rparr>)"
| r_playSelected: "reachable s \<Longrightarrow> reachable (playSelected s)"
| r_playPause: "reachable s \<Longrightarrow> reachable (playPause s)"
| r_playNext: "reachable s \<Longrightarrow> reachable (playNext g s)"
| r_playPrevious: "reachable s \<Longrightarrow> reachable (playPrevious s)"
| r_stop: "reachable s \<Longrightarrow> reachable (stop s)"
| r_handleMediaStatus: "reachable s \<Longrightarrow> reachable (handleMediaStatus status g s)"
| r_toggleShuffle: "reachable s \<Longrightarrow> reachable (toggleShuffle s)"
| r_cycleRepeat: "reachable s \<Longrightarrow> reachable (cycleRepeat s)"

text \<open>A history without two equal neighbours.\<close>

fun noConsecutiveDuplicates :: "string list \<Rightarrow> bool" where
  "noConsecutiveDuplicates (a # b # xs) = (a \<noteq> b \<and> noConsecutiveDuplicates (b # xs))"
| "noConsecutiveDuplicates xs = True"

text \<open>
  The three ways a slot may change the history: not at all, by dropping the last entry, or
  by appending one entry that differs from the entry before it.
\<close>

definition historyStep :: "string list \<Rightarrow> string list \<Rightarrow> bool" where
  "historyStep h h' =
     (h' = h \<or> h' = butlast h
      \<or> (h' \<noteq> [] \<and> butlast h' = h \<and> (h = [] \<or> last h \<noteq> last h')))"

text \<open>The first and the third of these ways: the history is kept or grows by one entry.\<close>

definition historyAppend :: "string list \<Rightarrow> string list \<Rightarrow> bool" where
  "historyAppend h h' =
     (h' = h \<or> (h' \<noteq> [] \<and> butlast h' = h \<and> (h = [] \<or> last h \<noteq> last h')))"

text \<open>
  What holds in every reachable state: the catalog lists no path twice, \<^verbatim>\<open>trackSet_\<close>
  holds exactly the paths of the rows, no row has an empty path, and the play history holds
  no empty path and no two equal neighbours.
\<close>

definition catalogInv :: "MainWindow \<Rightarrow> bool" where
  "catalogInv s =
     (distinct (map filePath (model s)) \<and> trackSet s = set (map filePath (model s))
      \<and> [] \<notin> set (map filePath (model s)))"

definition historyInv :: "string list \<Rightarrow> bool" where
  "historyInv h = (noConsecutiveDuplicates h \<and> [] \<notin> set h)"

section \<open>A small library, for concrete runs\<close>

text \<open>
  The folder of the specification's scenario, scanned as \<open>/m\<close> into the initial window:
  \<open>song.mp3\<close>, \<open>SONG.MP3\<close> in a sub-folder, and \<open>notes.txt\<close>. Then the first row is
  selected and played, the next track is played, and the first row is selected and played
  again.
\<close>

definition exampleFolder :: "entry list" where
  "exampleFolder =
     [File ''song.mp3'' False, Dir ''sub'' False [File ''SONG.MP3'' False],
      File ''notes.txt'' False]"

definition scanned :: MainWindow where
  "scanned = (scanFolder ''/m'' exampleFolder initial)\<lparr> currentIndex := Some 0 \<rparr>"

definition playingFirst :: MainWindow where
  "playingFirst = playSelected scanned"

definition playingSecond :: MainWindow where
  "playingSecond = playNext 0 playingFirst"

definition playingThird :: MainWindow where
  "playingThird = playSelected (playingSecond\<lparr> currentIndex := Some 0 \<rparr>)"

text \<open>
  The same folder scanned with nothing selected, and then filtered by a query that no track
  matches.
\<close>

definition scannedNoSelection :: MainWindow where
  "scannedNoSelection = (scanFolder ''/m'' exampleFolder initial)\<lparr> currentIndex := None \<rparr>"

definition filteredOut :: MainWindow where
  "filteredOut = (setFilterText ''zzz'' scannedNoSelection)\<lparr> currentIndex := None \<rparr>"

text \<open>The scanned folder with the second row selected and played.\<close>

definition playingLast :: MainWindow where
  "playingLast = playSelected (scanned\<lparr> currentIndex := Some 1 \<rparr>)"

section \<open>The normaliser is idempotent\<close>

lemma isSpace_space: "isSpace (CHR '' '')"
  by (simp add: isSpace_def)

lemma regex_space_space: "regex_space (CHR '' '')"
  by (simp add: regex_space_def)

lemma regex_space_isSpace: "regex_space c \<Longrightarrow> isSpace c"
  by (auto simp: regex_space_def isSpace_def Let_def)

lemma toLower_char_idem: "toLower_char (toLower_char c) = toLower_char c"
proof -
  have "of_char (char_of (of_char c + 32 :: nat)) = ((of_char c + 32) mod 256 :: nat)"
    by simp
  then show ?thesis
    by (auto simp: toLower_char_def Let_def)
qed

lemma toLower_char_space: "toLower_char (CHR '' '') = CHR '' ''"
  by (simp add: toLower_char_def)

lemma toLower_char_underscore: "toLower_char (CHR ''_'') = CHR ''_''"
  by (simp add: toLower_char_def)

lemma toLower_char_hyphen: "toLower_char (CHR ''-'') = CHR ''-''"
  by (simp add: toLower_char_def)

lemma norm_char_idem: "norm_char (norm_char c) = norm_char c"
  by (simp add: norm_char_def Let_def toLower_char_idem toLower_char_space)

lemma norm_char_space: "norm_char (CHR '' '') = CHR '' ''"
  by (simp add: norm_char_def toLower_char_space)

lemma replace_toLower_norm:
  "replace_char (CHR ''-'') (CHR '' '') (replace_char (CHR ''_'') (CHR '' '') (toLower text))
     = map norm_char text"
  by (simp add: replace_char_def toLower_def norm_char_def Let_def)

lemma normalizeText_alt:
  "normalizeText text = join_space (words (replace_runs regex_space (map norm_char text)))"
  by (simp add: normalizeText_def simplified_def replace_toLower_norm)

lemma set_replace_runs: "set (replace_runs p s) \<subseteq> insert (CHR '' '') (set s)"
proof (induction p s rule: replace_runs.induct)
  case (1 p)
  then show ?case by simp
next
  case (2 p c cs)
  have "set (dropWhile p cs) \<subseteq> set cs"
    by (auto dest: set_dropWhileD)
  with 2 show ?case by auto
qed

lemma words_props:
  "w \<in> set (words s) \<Longrightarrow> w \<noteq> [] \<and> (\<forall>c\<in>set w. \<not> isSpace c) \<and> set w \<subseteq> set s"
proof (induction s arbitrary: w rule: words.induct)
  case (1 s)
  show ?case
  proof (cases "dropWhile isSpace s")
    case Nil
    with 1(2) show ?thesis by (simp add: words.simps [of s])
  next
    case (Cons c cs)
    have sub: "set (c # cs) \<subseteq> set s"
      using set_dropWhileD [of _ isSpace s] Cons by auto
    have c: "\<not> isSpace c"
      using hd_dropWhile [of isSpace s] Cons by simp
    from 1(2) Cons have "w = c # takeWhile (\<lambda>x. \<not> isSpace x) cs
        \<or> w \<in> set (words (dropWhile (\<lambda>x. \<not> isSpace x) cs))"
      by (simp add: words.simps [of s])
    then show ?thesis
    proof
      assume w: "w = c # takeWhile (\<lambda>x. \<not> isSpace x) cs"
      have "set (takeWhile (\<lambda>x. \<not> isSpace x) cs) \<subseteq> set cs"
        by (auto dest: set_takeWhileD)
      moreover have "\<forall>x\<in>set (takeWhile (\<lambda>x. \<not> isSpace x) cs). \<not> isSpace x"
        by (auto dest: set_takeWhileD)
      ultimately show ?thesis using w c sub by auto
    next
      assume "w \<in> set (words (dropWhile (\<lambda>x. \<not> isSpace x) cs))"
      from 1(1) [OF Cons this]
      have "w \<noteq> [] \<and> (\<forall>c\<in>set w. \<not> isSpace c) \<and> set w \<subseteq> set (dropWhile (\<lambda>x. \<not> isSpace x) cs)" .
      moreover have "set (dropWhile (\<lambda>x. \<not> isSpace x) cs) \<subseteq> set cs"
        by (auto dest: set_dropWhileD)
      ultimately show ?thesis using sub by auto
    qed
  qed
qed

lemma words_skip: "isSpace c \<Longrightarrow> words (c # s) = words s"
  by (simp add: words.simps [of "c # s"] words.simps [of s])

lemma words_Nil: "words [] = []"
  by (simp add: words.simps [of "[]"])

lemma words_word_Nil: "word w \<Longrightarrow> words w = [w]"
proof -
  assume w: "word w"
  then obtain c cs where wc: "w = c # cs" by (cases w) (auto simp: word_def)
  from w wc have c: "\<not> isSpace c" and cs: "\<forall>x\<in>set cs. \<not> isSpace x"
    by (auto simp: word_def)
  have t: "takeWhile (\<lambda>x. \<not> isSpace x) cs = cs" using cs by simp
  have d: "dropWhile (\<lambda>x. \<not> isSpace x) cs = []" using cs by simp
  have "words (c # cs) =
      (c # takeWhile (\<lambda>x. \<not> isSpace x) cs) # words (dropWhile (\<lambda>x. \<not> isSpace x) cs)"
    using c by (simp add: words.simps [of "c # cs"])
  then show ?thesis
    unfolding t d wc by (simp add: words_Nil)
qed

lemma words_word_app: "word w \<Longrightarrow> isSpace sp \<Longrightarrow> words (w @ sp # r) = w # words r"
proof -
  assume w: "word w" and sp: "isSpace sp"
  then obtain c cs where [simp]: "w = c # cs" by (cases w) (auto simp: word_def)
  from w have c: "\<not> isSpace c" and cs: "\<forall>x\<in>set cs. \<not> isSpace x" by (auto simp: word_def)
  from cs sp have "takeWhile (\<lambda>x. \<not> isSpace x) (cs @ sp # r) = cs"
    by (simp add: takeWhile_append2)
  moreover from cs sp have "dropWhile (\<lambda>x. \<not> isSpace x) (cs @ sp # r) = sp # r"
    by (simp add: dropWhile_append2)
  ultimately have "words (w @ sp # r) = w # words (sp # r)"
    using c by (simp add: words.simps [of "c # cs @ sp # r"])
  then show ?thesis using sp by (simp add: words_skip)
qed

lemma words_join_space: "\<forall>w\<in>set ws. word w \<Longrightarrow> words (join_space ws) = ws"
proof (induction ws rule: join_space.induct)
  case 1
  then show ?case by (simp add: words.simps [of "[]"])
next
  case (2 w)
  then show ?case by (simp add: words_word_Nil)
next
  case (3 w v ws)
  then show ?case by (simp add: words_word_app isSpace_space)
qed

lemma replace_runs_free: "\<forall>c\<in>set w. \<not> p c \<Longrightarrow> replace_runs p (w @ r) = w @ replace_runs p r"
  by (induction w) auto

lemma join_space_hd: "ws \<noteq> [] \<Longrightarrow> \<forall>w\<in>set ws. word w \<Longrightarrow>
    \<exists>c cs. join_space ws = c # cs \<and> \<not> isSpace c"
proof (induction ws rule: join_space.induct)
  case 1
  then show ?case by simp
next
  case (2 w)
  then show ?case by (cases w) (auto simp: word_def)
next
  case (3 w v ws)
  then show ?case by (cases w) (auto simp: word_def)
qed

lemma replace_runs_join_space:
  "\<forall>w\<in>set ws. word w \<Longrightarrow> replace_runs regex_space (join_space ws) = join_space ws"
proof (induction ws rule: join_space.induct)
  case 1
  then show ?case by simp
next
  case (2 w)
  then have "\<forall>c\<in>set w. \<not> regex_space c"
    by (auto simp: word_def dest: regex_space_isSpace)
  from replace_runs_free [OF this, of "[]"] show ?case by simp
next
  case (3 w v ws)
  then have w: "\<forall>c\<in>set w. \<not> regex_space c"
    by (auto simp: word_def dest: regex_space_isSpace)
  from 3 obtain c cs where j: "join_space (v # ws) = c # cs" and c: "\<not> isSpace c"
    using join_space_hd [of "v # ws"] by auto
  from c have "\<not> regex_space c" by (auto dest: regex_space_isSpace)
  with j have "dropWhile regex_space (join_space (v # ws)) = join_space (v # ws)"
    by simp
  with 3 w show ?case
    by (simp add: replace_runs_free regex_space_space)
qed

lemma set_join_space: "set (join_space ws) \<subseteq> insert (CHR '' '') (\<Union>(set ` set ws))"
  by (induction ws rule: join_space.induct) auto

section \<open>What the normaliser returns, in terms of its input\<close>

lemma words_Cons:
  "words (c # s) =
     (if isSpace c then words s
      else if s = [] \<or> isSpace (hd s) then [c] # words s
      else (c # hd (words s)) # tl (words s))"
proof (cases "isSpace c")
  case True
  then show ?thesis by (simp add: words_skip)
next
  case False
  show ?thesis
  proof (cases s)
    case Nil
    with False show ?thesis
      by (simp add: words.simps [of "[c]"] words_Nil)
  next
    case (Cons d ds)
    show ?thesis
    proof (cases "isSpace d")
      case True
      with False Cons show ?thesis
        by (simp add: words.simps [of "c # d # ds"])
    next
      case nd: False
      have "words (d # ds) =
          (d # takeWhile (\<lambda>x. \<not> isSpace x) ds) # words (dropWhile (\<lambda>x. \<not> isSpace x) ds)"
        using nd by (simp add: words.simps [of "d # ds"])
      moreover have "words (c # d # ds) =
          (c # d # takeWhile (\<lambda>x. \<not> isSpace x) ds) # words (dropWhile (\<lambda>x. \<not> isSpace x) ds)"
        using False nd by (simp add: words.simps [of "c # d # ds"])
      ultimately show ?thesis
        using False nd Cons by simp
    qed
  qed
qed

lemma replace_runs_Nil_iff: "replace_runs p s = [] \<longleftrightarrow> s = []"
  by (cases s) auto

lemma replace_runs_hd:
  "s \<noteq> [] \<Longrightarrow> isSpace (hd (replace_runs regex_space s)) \<longleftrightarrow> isSpace (hd s)"
  by (cases s) (auto simp: isSpace_space dest: regex_space_isSpace)

lemma words_dropWhile_regex: "words (dropWhile regex_space s) = words s"
  by (induction s) (auto simp: words_skip dest: regex_space_isSpace)

lemma words_replace_runs: "words (replace_runs regex_space s) = words s"
proof (induction regex_space s rule: replace_runs.induct)
  case 1
  show ?case by simp
next
  case (2 c cs)
  show ?case
  proof (cases "regex_space c")
    case True
    then have "isSpace c" by (rule regex_space_isSpace)
    with True 2(1) show ?thesis
      by (simp add: words_skip isSpace_space words_dropWhile_regex)
  next
    case False
    with 2(2) have ih: "words (replace_runs regex_space cs) = words cs"
      by simp
    have "words (c # replace_runs regex_space cs) = words (c # cs)"
    proof (cases "cs = []")
      case True
      then show ?thesis by simp
    next
      case ne: False
      then have "replace_runs regex_space cs \<noteq> []"
        by (simp add: replace_runs_Nil_iff)
      with ne show ?thesis
        by (simp add: words_Cons [of c] ih replace_runs_hd)
    qed
    with False show ?thesis by simp
  qed
qed

lemma normalizeText_words:
  "normalizeText x =
     join_space (words (replace_char (CHR ''-'') (CHR '' '')
       (replace_char (CHR ''_'') (CHR '' '') (toLower x))))"
  by (simp add: normalizeText_def simplified_def words_replace_runs)

lemma words_word: "w \<in> set (words s) \<Longrightarrow> word w"
  using words_props [of w s] by (simp add: word_def)

lemma concat_words: "concat (words s) = filter (\<lambda>c. \<not> isSpace c) s"
proof (induction s)
  case Nil
  show ?case by (simp add: words_Nil)
next
  case (Cons c s)
  show ?case
  proof (cases "isSpace c \<or> s = [] \<or> isSpace (hd s)")
    case True
    with Cons show ?thesis
      by (auto simp: words_Cons [of c])
  next
    case False
    then obtain d ds where s: "s = d # ds" and d: "\<not> isSpace d"
      by (cases s) auto
    then have "words s \<noteq> []"
      by (simp add: words.simps [of "d # ds"])
    then have "concat (words s) = hd (words s) @ concat (tl (words s))"
      by (cases "words s") simp_all
    with False Cons show ?thesis
      by (simp add: words_Cons [of c])
  qed
qed

lemma filter_join_space:
  "\<forall>w\<in>set ws. word w \<Longrightarrow> filter (\<lambda>c. \<not> isSpace c) (join_space ws) = concat ws"
  by (induction ws rule: join_space.induct) (auto simp: word_def isSpace_space)

lemma normalizeText_letters:
  "filter (\<lambda>c. \<not> isSpace c) (normalizeText x) =
     filter (\<lambda>c. \<not> isSpace c)
       (replace_char (CHR ''-'') (CHR '' '') (replace_char (CHR ''_'') (CHR '' '') (toLower x)))"
  by (simp add: normalizeText_words filter_join_space words_word concat_words)

lemma join_space_ends:
  "ws \<noteq> [] \<Longrightarrow> \<forall>w\<in>set ws. word w \<Longrightarrow>
   join_space ws \<noteq> [] \<and> \<not> isSpace (hd (join_space ws)) \<and> \<not> isSpace (last (join_space ws))"
proof (induction ws rule: join_space.induct)
  case 1
  then show ?case by simp
next
  case (2 w)
  then show ?case by (simp add: word_def)
next
  case (3 w v ws)
  then show ?case by (cases w) (auto simp: word_def)
qed

lemma noDoubleSpace_word_app:
  "\<forall>c\<in>set w. \<not> isSpace c \<Longrightarrow> noDoubleSpace r \<Longrightarrow> noDoubleSpace (w @ r)"
proof (induction w)
  case Nil
  then show ?case by simp
next
  case (Cons a w)
  then show ?case by (cases "w @ r") auto
qed

lemma noDoubleSpace_join_space: "\<forall>w\<in>set ws. word w \<Longrightarrow> noDoubleSpace (join_space ws)"
proof (induction ws rule: join_space.induct)
  case 1
  show ?case by simp
next
  case (2 w)
  then have "\<forall>c\<in>set w. \<not> isSpace c" by (simp add: word_def)
  from noDoubleSpace_word_app [OF this, of "[]"] show ?case by simp
next
  case (3 w v ws)
  then have w: "\<forall>c\<in>set w. \<not> isSpace c" by (simp add: word_def)
  from 3 have r: "noDoubleSpace (join_space (v # ws))" by simp
  from 3 have "\<not> isSpace (hd (join_space (v # ws)))" "join_space (v # ws) \<noteq> []"
    using join_space_ends [of "v # ws"] by auto
  with r have "noDoubleSpace (CHR '' '' # join_space (v # ws))"
    by (cases "join_space (v # ws)") auto
  from noDoubleSpace_word_app [OF w this] show ?case by simp
qed

lemma normalizeText_shape:
  "noDoubleSpace (normalizeText x)
   \<and> (normalizeText x \<noteq> [] \<longrightarrow>
        \<not> isSpace (hd (normalizeText x)) \<and> \<not> isSpace (last (normalizeText x)))
   \<and> (\<forall>c\<in>set (normalizeText x). isSpace c \<longrightarrow> c = CHR '' '')"
proof -
  define ws where "ws = words (replace_char (CHR ''-'') (CHR '' '')
       (replace_char (CHR ''_'') (CHR '' '') (toLower x)))"
  have n: "normalizeText x = join_space ws"
    by (simp add: normalizeText_words ws_def)
  have ws: "\<forall>w\<in>set ws. word w"
    by (simp add: ws_def words_word)
  have a: "noDoubleSpace (join_space ws)"
    using ws by (rule noDoubleSpace_join_space)
  have b: "join_space ws \<noteq> [] \<longrightarrow>
      \<not> isSpace (hd (join_space ws)) \<and> \<not> isSpace (last (join_space ws))"
    using join_space_ends [of ws] ws by (cases "ws = []") auto
  have c: "\<forall>c\<in>set (join_space ws). isSpace c \<longrightarrow> c = CHR '' ''"
  proof (intro ballI impI)
    fix c
    assume "c \<in> set (join_space ws)" and sp: "isSpace c"
    then have "c = CHR '' '' \<or> (\<exists>w\<in>set ws. c \<in> set w)"
      using set_join_space [of ws] by auto
    with ws sp show "c = CHR '' ''"
      by (auto simp: word_def)
  qed
  from a b c show ?thesis
    by (simp add: n)
qed

lemma toLower_char_not_space: "\<not> isSpace c \<Longrightarrow> \<not> isSpace (toLower_char c)"
proof -
  have "of_char (char_of (of_char c + 32 :: nat)) = ((of_char c + 32) mod 256 :: nat)"
    by simp
  then show "\<not> isSpace c \<Longrightarrow> \<not> isSpace (toLower_char c)"
    by (auto simp: toLower_char_def isSpace_def Let_def)
qed

lemma toLower_char_not_separator:
  "c \<noteq> CHR ''_'' \<Longrightarrow> c \<noteq> CHR ''-'' \<Longrightarrow>
   toLower_char c \<noteq> CHR ''_'' \<and> toLower_char c \<noteq> CHR ''-''"
proof -
  assume c: "c \<noteq> CHR ''_''" "c \<noteq> CHR ''-''"
  have m: "of_char (char_of (of_char c + 32 :: nat)) = ((of_char c + 32) mod 256 :: nat)"
    by simp
  have u: "of_char (CHR ''_'') = (95 :: nat)" "of_char (CHR ''-'') = (45 :: nat)"
    by simp_all
  show ?thesis
  proof (cases "toLower_char c = c")
    case True
    with c show ?thesis by simp
  next
    case False
    then have t: "toLower_char c = char_of (of_char c + 32 :: nat)"
      and r: "(65 \<le> (of_char c :: nat) \<and> (of_char c :: nat) \<le> 90)
          \<or> (192 \<le> (of_char c :: nat) \<and> (of_char c :: nat) \<le> 214)
          \<or> (216 \<le> (of_char c :: nat) \<and> (of_char c :: nat) \<le> 222)"
      by (auto simp: toLower_char_def Let_def split: if_splits)
    from r m have "(of_char (toLower_char c) :: nat) \<noteq> 95 \<and> (of_char (toLower_char c) :: nat) \<noteq> 45"
      unfolding t by auto
    with u show ?thesis by metis
  qed
qed

lemma normalizeText_single_word:
  assumes "\<forall>c\<in>set x. \<not> isSpace c \<and> c \<noteq> CHR ''_'' \<and> c \<noteq> CHR ''-''"
  shows "normalizeText x = toLower x"
proof (cases "x = []")
  case True
  then show ?thesis
    by (simp add: normalizeText_words toLower_def replace_char_def words_Nil)
next
  case False
  have "\<forall>c\<in>set x. toLower_char c \<noteq> CHR ''_'' \<and> toLower_char c \<noteq> CHR ''-''"
    using assms toLower_char_not_separator by blast
  then have r: "replace_char (CHR ''-'') (CHR '' '')
      (replace_char (CHR ''_'') (CHR '' '') (toLower x)) = toLower x"
    by (simp add: replace_char_def toLower_def map_idI)
  have "word (toLower x)"
    using assms False toLower_char_not_space by (auto simp: word_def toLower_def)
  then have "words (toLower x) = [toLower x]"
    by (rule words_word_Nil)
  with r show ?thesis
    by (simp add: normalizeText_words)
qed

lemma normalizeText_fixed: "normalizeText (normalizeText x) = normalizeText x"
proof -
  define t where "t = replace_runs regex_space (map norm_char x)"
  define ws where "ws = words t"
  have y: "normalizeText x = join_space ws"
    by (simp add: normalizeText_alt t_def ws_def)
  have ws: "\<forall>w\<in>set ws. word w"
    using words_props [of _ t] by (auto simp: ws_def word_def)
  have "\<forall>c\<in>set t. norm_char c = c"
    using set_replace_runs [of regex_space "map norm_char x"]
    by (auto simp: t_def norm_char_idem norm_char_space)
  moreover have "\<forall>w\<in>set ws. set w \<subseteq> set t"
    using words_props [of _ t] by (auto simp: ws_def)
  ultimately have "\<forall>c\<in>set (join_space ws). norm_char c = c"
    using set_join_space [of ws] by (fastforce simp: norm_char_space)
  then have "map norm_char (join_space ws) = join_space ws"
    by (simp add: map_idI)
  then have "normalizeText (join_space ws) = join_space ws"
    using ws by (simp add: normalizeText_alt replace_runs_join_space words_join_space)
  then show ?thesis by (simp add: y)
qed

lemma normalizeText_chars:
  "c \<in> set (normalizeText x) \<Longrightarrow> c = CHR '' '' \<or> (\<exists>d. c = norm_char d)"
proof -
  assume c: "c \<in> set (normalizeText x)"
  define t where "t = replace_runs regex_space (map norm_char x)"
  from c have "c \<in> set (join_space (words t))"
    by (simp add: normalizeText_alt t_def)
  then have "c = CHR '' '' \<or> (\<exists>w\<in>set (words t). c \<in> set w)"
    using set_join_space [of "words t"] by auto
  then have "c = CHR '' '' \<or> c \<in> set t"
    using words_props [of _ t] by auto
  then show ?thesis
    using set_replace_runs [of regex_space "map norm_char x"] by (auto simp: t_def)
qed

lemma norm_char_no_separator: "norm_char d \<noteq> CHR ''_'' \<and> norm_char d \<noteq> CHR ''-''"
  by (simp add: norm_char_def Let_def)

lemma toLower_norm_char: "toLower_char (norm_char d) = norm_char d"
  by (simp add: norm_char_def Let_def toLower_char_idem toLower_char_space)

lemma normalizeText_no_underscore: "CHR ''_'' \<notin> set (normalizeText x)"
  using normalizeText_chars [of "CHR ''_''" x] norm_char_no_separator by fastforce

lemma normalizeText_no_hyphen: "CHR ''-'' \<notin> set (normalizeText x)"
  using normalizeText_chars [of "CHR ''-''" x] norm_char_no_separator by fastforce

lemma normalizeText_lower: "toLower (normalizeText x) = normalizeText x"
proof -
  have "\<forall>c\<in>set (normalizeText x). toLower_char c = c"
  proof
    fix c
    assume "c \<in> set (normalizeText x)"
    then have "c = CHR '' '' \<or> (\<exists>d. c = norm_char d)"
      by (rule normalizeText_chars)
    then show "toLower_char c = c"
      by (auto simp: toLower_norm_char toLower_char_space)
  qed
  then show ?thesis
    by (simp add: toLower_def map_idI)
qed

lemma normalizeText_simplified: "simplified (normalizeText x) = normalizeText x"
proof -
  define t where "t = replace_runs regex_space (map norm_char x)"
  have "\<forall>w\<in>set (words t). word w"
    using words_props [of _ t] by (auto simp: word_def)
  then have "words (join_space (words t)) = words t"
    by (rule words_join_space)
  then show ?thesis
    by (simp add: simplified_def normalizeText_alt t_def)
qed

lemma normalizeText_toLower: "normalizeText (toLower x) = normalizeText x"
proof -
  have "map norm_char (toLower x) = map norm_char x"
    by (simp add: toLower_def norm_char_def toLower_char_idem)
  then show ?thesis by (simp add: normalizeText_alt)
qed

lemma normalizeText_underscore:
  "normalizeText (replace_char (CHR ''_'') (CHR '' '') x) = normalizeText x"
proof -
  have "map norm_char (replace_char (CHR ''_'') (CHR '' '') x) = map norm_char x"
    by (simp add: replace_char_def norm_char_def toLower_char_space toLower_char_underscore)
  then show ?thesis by (simp add: normalizeText_alt)
qed

lemma normalizeText_hyphen:
  "normalizeText (replace_char (CHR ''-'') (CHR '' '') x) = normalizeText x"
proof -
  have "map norm_char (replace_char (CHR ''-'') (CHR '' '') x) = map norm_char x"
    by (simp add: replace_char_def norm_char_def toLower_char_space toLower_char_hyphen)
  then show ?thesis by (simp add: normalizeText_alt)
qed

lemma normalizeText_example:
  "normalizeText ''My-Song_Title'' = ''my song title''
   \<and> normalizeText ''my song title'' = ''my song title''
   \<and> normalizeText ''  A__b  -  C  '' = ''a b c''"
  by code_simp

text \<open>
  Claim C5. \<^const>\<open>normalizeText\<close> is a function of its argument alone, and it is
  idempotent: normalising a normalised text changes nothing.

  What it returns is fixed by its input: lower-case the input, write a space for every
  \<open>_\<close> and every \<open>-\<close>, take the maximal runs of non-whitespace of that text and join
  them with single spaces. So the characters other than whitespace are those of the
  lower-cased, separator-free input, in their order; a text without whitespace, \<open>_\<close> and
  \<open>-\<close> is only lower-cased; no two neighbours of the result are whitespace, the result
  neither starts nor ends with whitespace, and its only whitespace is the space.

  It does not see case or the separators: lower-casing the input first, or writing a space
  for every \<open>_\<close> or every \<open>-\<close>, gives the same result. Its result is lower case, holds
  neither \<open>_\<close> nor \<open>-\<close>, and is already simplified. \<open>My-Song_Title\<close> and
  \<open>my song title\<close> both normalise to \<open>my song title\<close>.
\<close>

theorem normalizeText_idempotent_insensitive:
  "normalizeText (normalizeText x) = normalizeText x
   \<and> normalizeText x =
       join_space (words (replace_char (CHR ''-'') (CHR '' '')
         (replace_char (CHR ''_'') (CHR '' '') (toLower x))))
   \<and> filter (\<lambda>c. \<not> isSpace c) (normalizeText x) =
       filter (\<lambda>c. \<not> isSpace c)
         (replace_char (CHR ''-'') (CHR '' '') (replace_char (CHR ''_'') (CHR '' '') (toLower x)))
   \<and> ((\<forall>c\<in>set x. \<not> isSpace c \<and> c \<noteq> CHR ''_'' \<and> c \<noteq> CHR ''-'') \<longrightarrow>
        normalizeText x = toLower x)
   \<and> noDoubleSpace (normalizeText x)
   \<and> (normalizeText x \<noteq> [] \<longrightarrow>
        \<not> isSpace (hd (normalizeText x)) \<and> \<not> isSpace (last (normalizeText x)))
   \<and> (\<forall>c\<in>set (normalizeText x). isSpace c \<longrightarrow> c = CHR '' '')
   \<and> normalizeText (toLower x) = normalizeText x
   \<and> normalizeText (replace_char (CHR ''_'') (CHR '' '') x) = normalizeText x
   \<and> normalizeText (replace_char (CHR ''-'') (CHR '' '') x) = normalizeText x
   \<and> toLower (normalizeText x) = normalizeText x
   \<and> CHR ''_'' \<notin> set (normalizeText x)
   \<and> CHR ''-'' \<notin> set (normalizeText x)
   \<and> simplified (normalizeText x) = normalizeText x
   \<and> normalizeText ''My-Song_Title'' = ''my song title''
   \<and> normalizeText ''my song title'' = ''my song title''
   \<and> normalizeText ''My-Song_Title'' = normalizeText ''my song title''
   \<and> normalizeText ''  A__b  -  C  '' = ''a b c''"
proof -
  have single: "(\<forall>c\<in>set x. \<not> isSpace c \<and> c \<noteq> CHR ''_'' \<and> c \<noteq> CHR ''-'') \<longrightarrow>
        normalizeText x = toLower x"
    using normalizeText_single_word [of x] by blast
  have same: "normalizeText ''My-Song_Title'' = normalizeText ''my song title''"
    using normalizeText_example by simp
  from normalizeText_fixed [of x] normalizeText_words [of x] normalizeText_letters [of x]
    single normalizeText_shape [of x] normalizeText_toLower [of x]
    normalizeText_underscore [of x] normalizeText_hyphen [of x] normalizeText_lower [of x]
    normalizeText_no_underscore [of x] normalizeText_no_hyphen [of x]
    normalizeText_simplified [of x] normalizeText_example same
  show ?thesis
    by blast
qed

theorem normalizeText_idempotent_insensitive_witness:
  "normalizeText ''Title.MP3'' = ''title.mp3''
   \<and> \<not> isSpace (hd (normalizeText '' My-Song_Title ''))
   \<and> \<not> isSpace (last (normalizeText '' My-Song_Title ''))
   \<and> filter (\<lambda>c. \<not> isSpace c) (normalizeText '' My-Song_Title '') = ''mysongtitle''"
proof -
  have w: "\<forall>c\<in>set ''Title.MP3''. \<not> isSpace c \<and> c \<noteq> CHR ''_'' \<and> c \<noteq> CHR ''-''"
    by code_simp
  have l: "toLower ''Title.MP3'' = ''title.mp3''"
    by code_simp
  from normalizeText_idempotent_insensitive [of "''Title.MP3''"] w
  have "normalizeText ''Title.MP3'' = toLower ''Title.MP3''"
    by blast
  with l have a: "normalizeText ''Title.MP3'' = ''title.mp3''"
    by simp
  have ne: "normalizeText '' My-Song_Title '' \<noteq> []"
    by code_simp
  from normalizeText_idempotent_insensitive [of "'' My-Song_Title ''"] ne
  have b: "\<not> isSpace (hd (normalizeText '' My-Song_Title ''))
      \<and> \<not> isSpace (last (normalizeText '' My-Song_Title ''))"
    by blast
  have f: "filter (\<lambda>c. \<not> isSpace c)
      (replace_char (CHR ''-'') (CHR '' '')
        (replace_char (CHR ''_'') (CHR '' '') (toLower '' My-Song_Title ''))) = ''mysongtitle''"
    by code_simp
  from normalizeText_idempotent_insensitive [of "'' My-Song_Title ''"]
  have "filter (\<lambda>c. \<not> isSpace c) (normalizeText '' My-Song_Title '') =
      filter (\<lambda>c. \<not> isSpace c)
        (replace_char (CHR ''-'') (CHR '' '')
          (replace_char (CHR ''_'') (CHR '' '') (toLower '' My-Song_Title '')))"
    by blast
  with f have c: "filter (\<lambda>c. \<not> isSpace c) (normalizeText '' My-Song_Title '') = ''mysongtitle''"
    by simp
  from a b c show ?thesis
    by blast
qed

section \<open>What the slots leave alone\<close>

lemma playTrack_frame:
  "model (playTrack fp b s) = model s"
  "trackSet (playTrack fp b s) = trackSet s"
  "tokens (playTrack fp b s) = tokens s"
  "filterText (playTrack fp b s) = filterText s"
  "shuffleEnabled (playTrack fp b s) = shuffleEnabled s"
  "repeatMode (playTrack fp b s) = repeatMode s"
  by (simp_all add: playTrack_def Let_def split: option.split)

lemma playIndex_frame:
  "model (playIndex i s) = model s"
  "trackSet (playIndex i s) = trackSet s"
  "tokens (playIndex i s) = tokens s"
  by (simp_all add: playIndex_def playTrack_frame split: option.split)

lemma playNext_frame:
  "model (playNext g s) = model s"
  "trackSet (playNext g s) = trackSet s"
  "tokens (playNext g s) = tokens s"
  by (simp_all add: playNext_def Let_def playIndex_frame)

lemma playPrevious_frame:
  "model (playPrevious s) = model s"
  "trackSet (playPrevious s) = trackSet s"
  "tokens (playPrevious s) = tokens s"
  by (simp_all add: playPrevious_def Let_def playIndex_frame playTrack_frame)

lemma playPause_frame:
  "model (playPause s) = model s"
  "trackSet (playPause s) = trackSet s"
  "tokens (playPause s) = tokens s"
  by (simp_all add: playPause_def playSelected_def playIndex_frame)

lemma handleMediaStatus_frame:
  "model (handleMediaStatus st g s) = model s"
  "trackSet (handleMediaStatus st g s) = trackSet s"
  "tokens (handleMediaStatus st g s) = tokens s"
  by (simp_all add: handleMediaStatus_def playNext_frame playTrack_frame)

lemma scanFolder_history: "playHistory (fold addTrack ps s) = playHistory s"
  by (induction ps arbitrary: s) (simp_all add: addTrack_def)

section \<open>The play history\<close>

lemma noConsecutiveDuplicates_snoc:
  "noConsecutiveDuplicates h \<Longrightarrow> h = [] \<or> last h \<noteq> x \<Longrightarrow> noConsecutiveDuplicates (h @ [x])"
  by (induction h rule: noConsecutiveDuplicates.induct) auto

lemma noConsecutiveDuplicates_butlast:
  "noConsecutiveDuplicates h \<Longrightarrow> noConsecutiveDuplicates (butlast h)"
  by (induction h rule: noConsecutiveDuplicates.induct) (auto split: if_splits)

lemma playTrack_history:
  "playHistory (playTrack fp b s) =
     (if fp \<noteq> [] \<and> b \<and> (playHistory s = [] \<or> last (playHistory s) \<noteq> fp)
      then playHistory s @ [fp] else playHistory s)"
  by (simp add: playTrack_def Let_def split: option.split)

lemma historyInv_playTrack:
  "historyInv (playHistory s) \<Longrightarrow> historyInv (playHistory (playTrack fp b s))"
  by (auto simp: historyInv_def playTrack_history noConsecutiveDuplicates_snoc)

lemma historyInv_playIndex:
  "historyInv (playHistory s) \<Longrightarrow> historyInv (playHistory (playIndex i s))"
  by (simp add: playIndex_def historyInv_playTrack split: option.split)

lemma historyInv_playNext:
  "historyInv (playHistory s) \<Longrightarrow> historyInv (playHistory (playNext g s))"
  by (simp add: playNext_def Let_def historyInv_playIndex)

lemma historyInv_butlast: "historyInv h \<Longrightarrow> historyInv (butlast h)"
  by (auto simp: historyInv_def noConsecutiveDuplicates_butlast dest: in_set_butlastD)

lemma historyInv_playPrevious:
  assumes "historyInv (playHistory s)"
  shows "historyInv (playHistory (playPrevious s))"
proof (cases "2 \<le> length (playHistory s)")
  case True
  have "historyInv (playHistory (s\<lparr>playHistory := butlast (playHistory s)\<rparr>))"
    using assms by (simp add: historyInv_butlast)
  then have "historyInv (playHistory (playTrack (last (butlast (playHistory s))) False
      (s\<lparr>playHistory := butlast (playHistory s)\<rparr>)))"
    by (rule historyInv_playTrack)
  with True show ?thesis by (simp add: playPrevious_def Let_def)
next
  case False
  with assms show ?thesis
    by (simp add: playPrevious_def Let_def historyInv_playIndex)
qed

lemma historyInv_playPause:
  "historyInv (playHistory s) \<Longrightarrow> historyInv (playHistory (playPause s))"
  by (simp add: playPause_def playSelected_def historyInv_playIndex)

lemma historyInv_handleMediaStatus:
  "historyInv (playHistory s) \<Longrightarrow> historyInv (playHistory (handleMediaStatus st g s))"
  by (simp add: handleMediaStatus_def historyInv_playNext historyInv_playTrack)

lemma reachable_historyInv: "reachable s \<Longrightarrow> historyInv (playHistory s)"
proof (induction rule: reachable.induct)
  case r_initial
  show ?case by (simp add: initial_def historyInv_def)
next
  case (r_scanFolder s path es i)
  then show ?case by (simp add: scanFolder_def scanFolder_history)
next
  case (r_setFilterText s q i)
  then show ?case by (simp add: setFilterText_def)
next
  case (r_currentChanged s i)
  then show ?case by simp
next
  case (r_playerState s st)
  then show ?case by simp
next
  case (r_playSelected s)
  then show ?case by (simp add: playSelected_def historyInv_playIndex)
next
  case (r_playPause s)
  then show ?case by (simp add: historyInv_playPause)
next
  case (r_playNext s g)
  then show ?case by (simp add: historyInv_playNext)
next
  case (r_playPrevious s)
  then show ?case by (simp add: historyInv_playPrevious)
next
  case (r_stop s)
  then show ?case by (simp add: stop_def)
next
  case (r_handleMediaStatus s status g)
  then show ?case by (simp add: historyInv_handleMediaStatus)
next
  case (r_toggleShuffle s)
  then show ?case by (simp add: toggleShuffle_def)
next
  case (r_cycleRepeat s)
  then show ?case by (simp add: cycleRepeat_def)
qed

section \<open>The catalog\<close>

lemma joinPath_not_Nil: "joinPath dir name \<noteq> []"
  by (simp add: joinPath_def)

lemma iterate_not_Nil: "[] \<notin> set (iterate nf fl sub dir e)"
proof (induction nf fl sub dir e rule: iterate.induct)
  case (1 nf fl sub dir name hidden)
  show ?case using joinPath_not_Nil [of dir name] by auto
next
  case (2 nf fl sub dir name hidden es)
  then show ?case by fastforce
qed

lemma QDirIterator_not_Nil: "[] \<notin> set (QDirIterator path nf fl sub es)"
  by (simp add: QDirIterator_def iterate_not_Nil)

lemma catalogInv_addTrack: "catalogInv s \<Longrightarrow> fp \<noteq> [] \<Longrightarrow> catalogInv (addTrack fp s)"
  by (auto simp: catalogInv_def addTrack_def)

lemma catalogInv_fold_addTrack:
  "catalogInv s \<Longrightarrow> [] \<notin> set ps \<Longrightarrow> catalogInv (fold addTrack ps s)"
  by (induction ps arbitrary: s) (auto simp: catalogInv_addTrack)

lemma catalogInv_scanFolder: "catalogInv s \<Longrightarrow> catalogInv (scanFolder path es s)"
  by (simp add: scanFolder_def catalogInv_fold_addTrack QDirIterator_not_Nil)

lemma catalogInv_cong:
  "model s' = model s \<Longrightarrow> trackSet s' = trackSet s \<Longrightarrow> catalogInv s' = catalogInv s"
  by (simp add: catalogInv_def)

lemma reachable_catalogInv: "reachable s \<Longrightarrow> catalogInv s"
proof (induction rule: reachable.induct)
  case r_initial
  show ?case by (simp add: initial_def catalogInv_def)
next
  case (r_scanFolder s path es i)
  then have "catalogInv (scanFolder path es s)" by (simp add: catalogInv_scanFolder)
  then show ?case by (simp add: catalogInv_def)
next
  case (r_setFilterText s q i)
  then show ?case by (simp add: setFilterText_def catalogInv_def)
next
  case (r_currentChanged s i)
  then show ?case by (simp add: catalogInv_def)
next
  case (r_playerState s st)
  then show ?case by (simp add: catalogInv_def)
next
  case (r_playSelected s)
  then show ?case by (simp add: playSelected_def playIndex_frame catalogInv_def)
next
  case (r_playPause s)
  then show ?case by (simp add: playPause_frame catalogInv_def)
next
  case (r_playNext s g)
  then show ?case by (simp add: playNext_frame catalogInv_def)
next
  case (r_playPrevious s)
  then show ?case by (simp add: playPrevious_frame catalogInv_def)
next
  case (r_stop s)
  then show ?case by (simp add: stop_def catalogInv_def)
next
  case (r_handleMediaStatus s status g)
  then show ?case by (simp add: handleMediaStatus_frame catalogInv_def)
next
  case (r_toggleShuffle s)
  then show ?case by (simp add: toggleShuffle_def catalogInv_def)
next
  case (r_cycleRepeat s)
  then show ?case by (simp add: cycleRepeat_def catalogInv_def)
qed

lemma noConsecutiveDuplicates_playTrack:
  "noConsecutiveDuplicates (playHistory s) \<Longrightarrow>
   noConsecutiveDuplicates (playHistory (playTrack fp b s))"
  by (auto simp: playTrack_history noConsecutiveDuplicates_snoc)

lemma noConsecutiveDuplicates_playIndex:
  "noConsecutiveDuplicates (playHistory s) \<Longrightarrow>
   noConsecutiveDuplicates (playHistory (playIndex i s))"
  by (simp add: playIndex_def noConsecutiveDuplicates_playTrack split: option.split)

lemma noConsecutiveDuplicates_playNext:
  "noConsecutiveDuplicates (playHistory s) \<Longrightarrow>
   noConsecutiveDuplicates (playHistory (playNext g s))"
  by (simp add: playNext_def Let_def noConsecutiveDuplicates_playIndex)

lemma playPrevious_pops:
  "2 \<le> length (playHistory s) \<Longrightarrow> playHistory (playPrevious s) = butlast (playHistory s)"
  by (simp add: playPrevious_def Let_def playTrack_history)

lemma noConsecutiveDuplicates_playPrevious:
  assumes "noConsecutiveDuplicates (playHistory s)"
  shows "noConsecutiveDuplicates (playHistory (playPrevious s))"
proof (cases "2 \<le> length (playHistory s)")
  case True
  with assms show ?thesis
    by (simp add: playPrevious_pops noConsecutiveDuplicates_butlast)
next
  case False
  with assms show ?thesis
    by (simp add: playPrevious_def Let_def noConsecutiveDuplicates_playIndex)
qed

lemma noConsecutiveDuplicates_playPause:
  "noConsecutiveDuplicates (playHistory s) \<Longrightarrow>
   noConsecutiveDuplicates (playHistory (playPause s))"
  by (simp add: playPause_def playSelected_def noConsecutiveDuplicates_playIndex)

lemma noConsecutiveDuplicates_handleMediaStatus:
  "noConsecutiveDuplicates (playHistory s) \<Longrightarrow>
   noConsecutiveDuplicates (playHistory (handleMediaStatus st g s))"
  by (simp add: handleMediaStatus_def noConsecutiveDuplicates_playNext
      noConsecutiveDuplicates_playTrack)

section \<open>The rows of the proxy and the current index\<close>

lemma visibleRows_cong:
  "model s' = model s \<Longrightarrow> tokens s' = tokens s \<Longrightarrow> visibleRows s' = visibleRows s"
  by (simp add: visibleRows_def)

lemma visibleRows_update:
  "visibleRows (s\<lparr>currentIndex := i\<rparr>) = visibleRows s"
  "visibleRows (s\<lparr>playbackState := st\<rparr>) = visibleRows s"
  "visibleRows (s\<lparr>playHistory := h\<rparr>) = visibleRows s"
  "visibleRows (s\<lparr>shuffleEnabled := b\<rparr>) = visibleRows s"
  "visibleRows (s\<lparr>repeatMode := m\<rparr>) = visibleRows s"
  by (simp_all add: visibleRows_def)

lemma validIndex_update:
  "validIndex (s\<lparr>currentIndex := i\<rparr>) j = validIndex s j"
  "validIndex (s\<lparr>playbackState := st\<rparr>) j = validIndex s j"
  "validIndex (s\<lparr>playHistory := h\<rparr>) j = validIndex s j"
  "validIndex (s\<lparr>shuffleEnabled := b\<rparr>) j = validIndex s j"
  "validIndex (s\<lparr>repeatMode := m\<rparr>) j = validIndex s j"
  by (simp_all add: validIndex_def visibleRows_update split: option.split)

lemma rowCount_cong:
  "model s' = model s \<Longrightarrow> tokens s' = tokens s \<Longrightarrow> rowCount s' = rowCount s"
  by (simp add: rowCount_def visibleRows_def)

lemma set_visibleRows: "set (visibleRows s) \<subseteq> set (model s)"
  by (auto simp: visibleRows_def)

lemma rowCount_pos_iff: "0 < rowCount s \<longleftrightarrow> visibleRows s \<noteq> []"
  by (simp add: rowCount_def)

lemma findRow_less: "findRow fp ts = Some r \<Longrightarrow> r < length ts"
  by (induction ts arbitrary: r) (auto split: if_splits)

lemma validIndex_cong:
  "model s' = model s \<Longrightarrow> tokens s' = tokens s \<Longrightarrow> validIndex s' i = validIndex s i"
  by (simp add: validIndex_def visibleRows_def split: option.split)

lemma playTrack_currentIndex:
  "currentIndex (playTrack fp b s) =
     (if fp = [] then currentIndex s
      else case findRow fp (visibleRows s) of None \<Rightarrow> currentIndex s | Some r \<Rightarrow> Some r)"
  by (simp add: playTrack_def Let_def visibleRows_def split: option.split)

lemma validIndex_playTrack:
  assumes "validIndex s (currentIndex s)"
  shows "validIndex (playTrack fp b s) (currentIndex (playTrack fp b s))"
proof -
  have "validIndex s (currentIndex (playTrack fp b s))"
    using assms
    by (auto simp: playTrack_currentIndex validIndex_def dest: findRow_less split: option.split)
  then show ?thesis
    by (simp add: validIndex_cong [of "playTrack fp b s" s] playTrack_frame)
qed

lemma validIndex_playIndex:
  "validIndex s (currentIndex s) \<Longrightarrow> validIndex (playIndex i s) (currentIndex (playIndex i s))"
  by (simp add: playIndex_def validIndex_playTrack split: option.split)

lemma validIndex_playNext:
  "validIndex s (currentIndex s) \<Longrightarrow> validIndex (playNext g s) (currentIndex (playNext g s))"
  by (simp add: playNext_def Let_def validIndex_playIndex)

lemma validIndex_playPrevious:
  assumes "validIndex s (currentIndex s)"
  shows "validIndex (playPrevious s) (currentIndex (playPrevious s))"
proof (cases "2 \<le> length (playHistory s)")
  case True
  define s1 where "s1 = s\<lparr>playHistory := butlast (playHistory s)\<rparr>"
  have "validIndex s1 (currentIndex s1)"
    using assms by (simp add: s1_def validIndex_update)
  then have "validIndex (playTrack (last (playHistory s1)) False s1)
      (currentIndex (playTrack (last (playHistory s1)) False s1))"
    by (rule validIndex_playTrack)
  with True show ?thesis by (simp add: playPrevious_def Let_def s1_def)
next
  case False
  with assms show ?thesis
    by (simp add: playPrevious_def Let_def validIndex_playIndex)
qed

lemma validIndex_playPause:
  assumes "validIndex s (currentIndex s)"
  shows "validIndex (playPause s) (currentIndex (playPause s))"
proof -
  have a: "\<And>st. validIndex (s\<lparr>playbackState := st\<rparr>) (currentIndex s)"
    using assms by (simp add: validIndex_update)
  have b: "\<And>i. validIndex (playIndex i s) (currentIndex (playIndex i s))"
    using assms by (rule validIndex_playIndex)
  have c: "validIndex s None"
    by (simp add: validIndex_def)
  show ?thesis
    by (simp add: playPause_def playSelected_def a b c)
qed

lemma validIndex_handleMediaStatus:
  "validIndex s (currentIndex s) \<Longrightarrow>
   validIndex (handleMediaStatus st g s) (currentIndex (handleMediaStatus st g s))"
  by (simp add: handleMediaStatus_def validIndex_playNext validIndex_playTrack)

lemma reachable_validIndex: "reachable s \<Longrightarrow> validIndex s (currentIndex s)"
proof (induction rule: reachable.induct)
  case r_initial
  show ?case by (simp add: initial_def validIndex_def)
next
  case (r_scanFolder s path es i)
  then show ?case by (simp add: validIndex_update)
next
  case (r_setFilterText s q i)
  then show ?case by (simp add: validIndex_update)
next
  case (r_currentChanged s i)
  then show ?case by (simp add: validIndex_update)
next
  case (r_playerState s st)
  then show ?case by (simp add: validIndex_update)
next
  case (r_playSelected s)
  then show ?case by (simp add: playSelected_def validIndex_playIndex)
next
  case (r_playPause s)
  then show ?case by (simp add: validIndex_playPause)
next
  case (r_playNext s g)
  then show ?case by (simp add: validIndex_playNext)
next
  case (r_playPrevious s)
  then show ?case by (simp add: validIndex_playPrevious)
next
  case (r_stop s)
  then show ?case by (simp add: stop_def validIndex_update)
next
  case (r_handleMediaStatus s status g)
  then show ?case by (simp add: validIndex_handleMediaStatus)
next
  case (r_toggleShuffle s)
  then show ?case by (simp add: toggleShuffle_def validIndex_update)
next
  case (r_cycleRepeat s)
  then show ?case by (simp add: cycleRepeat_def validIndex_update)
qed

lemma playTrack_plays:
  "fp \<noteq> [] \<Longrightarrow>
   source (playTrack fp b s) = fp \<and> playbackState (playTrack fp b s) = PlayingState
   \<and> currentFilePath (playTrack fp b s) = fp"
  by (simp add: playTrack_def Let_def split: option.split)

lemma playTrack_Nil: "playTrack [] b s = s"
  by (simp add: playTrack_def)

lemma rowFilePath_visible:
  "r < length (visibleRows s) \<Longrightarrow> rowFilePath s r = filePath (visibleRows s ! r)"
  by (simp add: rowFilePath_def)

lemma reachable_rowFilePath:
  assumes "reachable s" and "r < length (visibleRows s)"
  shows "rowFilePath s r \<noteq> [] \<and> rowFilePath s r \<in> filePath ` set (visibleRows s)"
proof -
  from assms(2) have in_rows: "visibleRows s ! r \<in> set (visibleRows s)" by simp
  then have "visibleRows s ! r \<in> set (model s)" using set_visibleRows by blast
  moreover from assms(1) have "[] \<notin> set (map filePath (model s))"
    using reachable_catalogInv by (simp add: catalogInv_def)
  ultimately have "filePath (visibleRows s ! r) \<noteq> []" by force
  with assms(2) in_rows show ?thesis by (simp add: rowFilePath_def)
qed

lemma bounded_range: "0 < h \<Longrightarrow> 0 \<le> bounded g h \<and> bounded g h < h"
proof -
  assume h: "0 < h"
  define a where "a = uint g * h"
  define q where "q = a div 2 ^ 32"
  have g: "0 \<le> uint g" "uint g < 2 ^ 32"
    using uint_lt2p [of g] by simp_all
  from h g have a: "0 \<le> a" "a < 2 ^ 32 * h"
    by (simp_all add: a_def)
  have "2 ^ 32 * q + a mod 2 ^ 32 = a"
    by (simp add: q_def)
  moreover have "0 \<le> a mod 2 ^ 32"
    by simp
  ultimately have "2 ^ 32 * q \<le> a"
    by linarith
  with a have "(2 ^ 32 :: int) * q < 2 ^ 32 * h"
    by linarith
  then have "q < h"
    by simp
  moreover from a have "0 \<le> q"
    by (simp add: q_def pos_imp_zdiv_nonneg_iff)
  ultimately show ?thesis
    by (simp add: bounded_def q_def a_def)
qed

section \<open>The concrete runs\<close>

lemma scanned_value [code]:
  "scanned =
     \<lparr> model =
         [\<lparr> filePath = ''/m/song.mp3'', displayTitle = ''song'',
            searchKey = ''song song.mp3 /m'' \<rparr>,
          \<lparr> filePath = ''/m/sub/SONG.MP3'', displayTitle = ''SONG'',
            searchKey = ''song song.mp3 /m/sub'' \<rparr>],
       trackSet = {''/m/sub/SONG.MP3'', ''/m/song.mp3''},
       filterText = [], tokens = [], currentIndex = Some 0,
       source = [], playbackState = StoppedState, shuffleEnabled = False, repeatMode = 0,
       currentFilePath = [], playHistory = [] \<rparr>"
  by code_simp

lemma playingFirst_value [code]:
  "playingFirst =
     scanned\<lparr> source := ''/m/song.mp3'', playbackState := PlayingState,
              currentFilePath := ''/m/song.mp3'', playHistory := [''/m/song.mp3''] \<rparr>"
  by code_simp

lemma playingSecond_value [code]:
  "playingSecond =
     scanned\<lparr> currentIndex := Some 1,
              source := ''/m/sub/SONG.MP3'', playbackState := PlayingState,
              currentFilePath := ''/m/sub/SONG.MP3'',
              playHistory := [''/m/song.mp3'', ''/m/sub/SONG.MP3''] \<rparr>"
  by code_simp

lemma playingThird_value [code]:
  "playingThird =
     scanned\<lparr> source := ''/m/song.mp3'', playbackState := PlayingState,
              currentFilePath := ''/m/song.mp3'',
              playHistory := [''/m/song.mp3'', ''/m/sub/SONG.MP3'', ''/m/song.mp3''] \<rparr>"
  by code_simp

lemma scanned_rows:
  "map filePath (visibleRows scanned) = [''/m/song.mp3'', ''/m/sub/SONG.MP3'']"
  by code_simp

lemma reachable_scanned: "reachable scanned"
proof -
  have "validIndex (scanFolder ''/m'' exampleFolder initial) (Some 0)"
    by code_simp
  with r_initial show ?thesis
    unfolding scanned_def by (rule r_scanFolder)
qed

lemma reachable_playingFirst: "reachable playingFirst"
  unfolding playingFirst_def using reachable_scanned by (rule r_playSelected)

lemma reachable_playingSecond: "reachable playingSecond"
  unfolding playingSecond_def using reachable_playingFirst by (rule r_playNext)

lemma reachable_playingThird: "reachable playingThird"
proof -
  have "validIndex playingSecond (Some 0)"
    by code_simp
  with reachable_playingSecond have "reachable (playingSecond\<lparr>currentIndex := Some 0\<rparr>)"
    by (rule r_currentChanged)
  then show ?thesis
    unfolding playingThird_def by (rule r_playSelected)
qed

lemma playingSecond_fields:
  "playHistory playingSecond = [''/m/song.mp3'', ''/m/sub/SONG.MP3'']"
  "currentFilePath playingSecond = ''/m/sub/SONG.MP3''"
  "currentIndex playingSecond = Some 1"
  "shuffleEnabled playingSecond = False"
  "repeatMode playingSecond = 0"
  "rowCount playingSecond = 2"
  by code_simp+

lemma scannedNoSelection_value [code]:
  "scannedNoSelection = scanned\<lparr> currentIndex := None \<rparr>"
  by code_simp

lemma filteredOut_value [code]:
  "filteredOut = scanned\<lparr> currentIndex := None, filterText := ''zzz'', tokens := [''zzz''] \<rparr>"
  by code_simp

lemma reachable_scannedNoSelection: "reachable scannedNoSelection"
proof -
  have "validIndex (scanFolder ''/m'' exampleFolder initial) None"
    by (simp add: validIndex_def)
  with r_initial show ?thesis
    unfolding scannedNoSelection_def by (rule r_scanFolder)
qed

lemma reachable_filteredOut: "reachable filteredOut"
proof -
  have "validIndex (setFilterText ''zzz'' scannedNoSelection) None"
    by (simp add: validIndex_def)
  with reachable_scannedNoSelection show ?thesis
    unfolding filteredOut_def by (rule r_setFilterText)
qed

lemma playingLast_value [code]:
  "playingLast =
     scanned\<lparr> currentIndex := Some 1,
              source := ''/m/sub/SONG.MP3'', playbackState := PlayingState,
              currentFilePath := ''/m/sub/SONG.MP3'',
              playHistory := [''/m/sub/SONG.MP3''] \<rparr>"
  by code_simp

lemma reachable_playingLast: "reachable playingLast"
proof -
  have "validIndex scanned (Some 1)"
    by code_simp
  with reachable_scanned have "reachable (scanned\<lparr>currentIndex := Some 1\<rparr>)"
    by (rule r_currentChanged)
  then show ?thesis
    unfolding playingLast_def by (rule r_playSelected)
qed

section \<open>Claims about the catalog\<close>

lemma addTrack_count_twice: "count (addTrack fp (addTrack fp s)) = count (addTrack fp s)"
  by (simp add: addTrack_def count_def)

text \<open>
  Claim C2. For every state and every path, \<^const>\<open>addTrack\<close> changes nothing when the
  path is already in \<^verbatim>\<open>trackSet_\<close>, and otherwise records the path and appends exactly
  one row, whose title is the file name without its extension and whose search key is the
  normalised text of title, file name and directory. So adding a path twice adds one row
  only, and a new path adds exactly one. In every reachable state no two rows have the same
  path, and \<^verbatim>\<open>trackSet_\<close> is exactly the set of the rows' paths. (The method returns
  nothing in the source; the result of the specification's \<open>add\<close> is which of the two
  branches ran.)
\<close>

theorem addTrack_dedup:
  "(fp \<in> trackSet s \<longrightarrow> addTrack fp s = s)
   \<and> (fp \<notin> trackSet s \<longrightarrow>
        addTrack fp s =
          s\<lparr> trackSet := insert fp (trackSet s),
             model := model s @
               [\<lparr> filePath = fp,
                  displayTitle = completeBaseName fp,
                  searchKey = normalizeText
                    (completeBaseName fp @ '' '' @ fileName fp @ '' '' @ absolutePath fp) \<rparr>] \<rparr>
        \<and> count (addTrack fp s) = count s + 1
        \<and> count (addTrack fp (addTrack fp s)) = count s + 1)
   \<and> count (addTrack fp (addTrack fp s)) = count (addTrack fp s)
   \<and> (reachable s \<longrightarrow>
        distinct (map filePath (model s)) \<and> trackSet s = set (map filePath (model s)))
   \<and> completeBaseName ''/music/My-Song.mp3'' = ''My-Song''"
proof -
  have "fp \<in> trackSet s \<longrightarrow> addTrack fp s = s"
    by (simp add: addTrack_def)
  moreover have "fp \<notin> trackSet s \<longrightarrow>
        addTrack fp s =
          s\<lparr> trackSet := insert fp (trackSet s),
             model := model s @
               [\<lparr> filePath = fp,
                  displayTitle = completeBaseName fp,
                  searchKey = normalizeText
                    (completeBaseName fp @ '' '' @ fileName fp @ '' '' @ absolutePath fp) \<rparr>] \<rparr>
        \<and> count (addTrack fp s) = count s + 1
        \<and> count (addTrack fp (addTrack fp s)) = count s + 1"
    by (simp add: addTrack_def count_def)
  moreover have "reachable s \<longrightarrow>
        distinct (map filePath (model s)) \<and> trackSet s = set (map filePath (model s))"
    using reachable_catalogInv [of s] by (simp add: catalogInv_def)
  moreover have "completeBaseName ''/music/My-Song.mp3'' = ''My-Song''"
    by code_simp
  ultimately show ?thesis
    using addTrack_count_twice [of fp s] by blast
qed

theorem addTrack_dedup_witness:
  "count (addTrack ''/m/a.mp3'' (addTrack ''/m/a.mp3'' initial)) = 1
   \<and> addTrack ''/m/a.mp3'' ((scanFolder ''/m'' [File ''a.mp3'' False] initial)\<lparr>currentIndex := None\<rparr>)
       = (scanFolder ''/m'' [File ''a.mp3'' False] initial)\<lparr>currentIndex := None\<rparr>
   \<and> distinct (map filePath
        (model ((scanFolder ''/m'' [File ''a.mp3'' False] initial)\<lparr>currentIndex := None\<rparr>)))"
proof -
  define s1 where "s1 = (scanFolder ''/m'' [File ''a.mp3'' False] initial)\<lparr>currentIndex := None\<rparr>"
  have r: "reachable s1"
    unfolding s1_def by (rule r_scanFolder [OF r_initial]) (simp add: validIndex_def)
  have present: "''/m/a.mp3'' \<in> trackSet s1"
    unfolding s1_def by code_simp
  have absent: "''/m/a.mp3'' \<notin> trackSet initial"
    by (simp add: initial_def)
  have c0: "count initial = 0"
    by (simp add: count_def initial_def)
  from addTrack_dedup [of "''/m/a.mp3''" initial] absent
  have "count (addTrack ''/m/a.mp3'' (addTrack ''/m/a.mp3'' initial)) = count initial + 1"
    by blast
  with c0 have "count (addTrack ''/m/a.mp3'' (addTrack ''/m/a.mp3'' initial)) = 1"
    by simp
  moreover from addTrack_dedup [of "''/m/a.mp3''" s1] present r
  have "addTrack ''/m/a.mp3'' s1 = s1 \<and> distinct (map filePath (model s1))"
    by blast
  ultimately show ?thesis
    unfolding s1_def by simp
qed

section \<open>Claims about the play history\<close>

lemma scanFolder_playHistory: "playHistory (scanFolder path es s) = playHistory s"
  by (simp add: scanFolder_def scanFolder_history)

lemma historyStep_playTrack: "historyStep (playHistory s) (playHistory (playTrack fp b s))"
  by (simp add: historyStep_def playTrack_history)

lemma historyStep_playIndex: "historyStep (playHistory s) (playHistory (playIndex i s))"
  by (cases i) (simp_all add: playIndex_def historyStep_playTrack, simp add: historyStep_def)

lemma historyStep_refl: "historyStep h h"
  by (simp add: historyStep_def)

lemma historyStep_playNext: "historyStep (playHistory s) (playHistory (playNext g s))"
  by (simp add: playNext_def Let_def historyStep_playIndex historyStep_refl)

lemma historyStep_playPrevious: "historyStep (playHistory s) (playHistory (playPrevious s))"
proof (cases "2 \<le> length (playHistory s)")
  case True
  then show ?thesis
    by (simp add: playPrevious_pops historyStep_def)
next
  case False
  then show ?thesis
    by (simp add: playPrevious_def Let_def historyStep_playIndex historyStep_refl)
qed

lemma historyStep_playPause: "historyStep (playHistory s) (playHistory (playPause s))"
  by (simp add: playPause_def playSelected_def historyStep_playIndex historyStep_refl)

lemma historyStep_handleMediaStatus:
  "historyStep (playHistory s) (playHistory (handleMediaStatus st g s))"
  by (simp add: handleMediaStatus_def historyStep_playNext historyStep_playTrack historyStep_refl)

lemma historyAppend_playTrack: "historyAppend (playHistory s) (playHistory (playTrack fp b s))"
  by (simp add: historyAppend_def playTrack_history)

lemma historyAppend_refl: "historyAppend h h"
  by (simp add: historyAppend_def)

lemma historyAppend_playIndex: "historyAppend (playHistory s) (playHistory (playIndex i s))"
  by (cases i) (simp_all add: playIndex_def historyAppend_playTrack historyAppend_refl)

lemma historyAppend_playNext: "historyAppend (playHistory s) (playHistory (playNext g s))"
  by (simp add: playNext_def Let_def historyAppend_playIndex historyAppend_refl)

lemma historyAppend_playPause: "historyAppend (playHistory s) (playHistory (playPause s))"
  by (simp add: playPause_def playSelected_def historyAppend_playIndex historyAppend_refl)

lemma historyAppend_handleMediaStatus:
  "historyAppend (playHistory s) (playHistory (handleMediaStatus st g s))"
  by (simp add: handleMediaStatus_def historyAppend_playNext historyAppend_playTrack
      historyAppend_refl)

lemma historyAppend_playPrevious_fallback:
  "length (playHistory s) < 2 \<Longrightarrow>
   historyAppend (playHistory s) (playHistory (playPrevious s))"
  by (simp add: playPrevious_def Let_def historyAppend_playIndex historyAppend_refl)

text \<open>
  Claim C10, as the code has it. In every reachable state the play history has no two
  equal neighbours. \<^const>\<open>playTrack\<close> appends the path only when recording is on and
  the path differs from the last entry (and is not empty); with recording off it leaves the
  history alone. \<^const>\<open>playPrevious\<close>, on a history of two or more, removes the last
  entry and nothing else; on a shorter history it plays the row before the current one
  through \<^const>\<open>playTrack\<close> with recording on, so it keeps the history or appends one
  entry that differs from the last. The other playing slots do the same: they keep the
  history or append one differing entry, never more. Scanning, filtering, stopping and the
  two mode switches do not touch the history. Every slot takes a history without equal
  neighbours to one without equal neighbours.
\<close>

theorem playHistory_no_consecutive_duplicates:
  "(reachable s \<longrightarrow> noConsecutiveDuplicates (playHistory s))
   \<and> playHistory (playTrack fp True s) =
       (if fp \<noteq> [] \<and> (playHistory s = [] \<or> last (playHistory s) \<noteq> fp)
        then playHistory s @ [fp] else playHistory s)
   \<and> playHistory (playTrack fp False s) = playHistory s
   \<and> (2 \<le> length (playHistory s) \<longrightarrow> playHistory (playPrevious s) = butlast (playHistory s))
   \<and> (length (playHistory s) < 2 \<longrightarrow>
        historyAppend (playHistory s) (playHistory (playPrevious s)))
   \<and> playHistory (scanFolder path es s) = playHistory s
   \<and> playHistory (setFilterText q s) = playHistory s
   \<and> playHistory (stop s) = playHistory s
   \<and> playHistory (toggleShuffle s) = playHistory s
   \<and> playHistory (cycleRepeat s) = playHistory s
   \<and> historyAppend (playHistory s) (playHistory (playIndex i s))
   \<and> historyAppend (playHistory s) (playHistory (playSelected s))
   \<and> historyAppend (playHistory s) (playHistory (playPause s))
   \<and> historyAppend (playHistory s) (playHistory (playNext g s))
   \<and> historyAppend (playHistory s) (playHistory (handleMediaStatus st g s))
   \<and> historyStep (playHistory s) (playHistory (playPrevious s))
   \<and> (noConsecutiveDuplicates (playHistory s) \<longrightarrow>
        noConsecutiveDuplicates (playHistory (playTrack fp b s))
        \<and> noConsecutiveDuplicates (playHistory (playIndex i s))
        \<and> noConsecutiveDuplicates (playHistory (playSelected s))
        \<and> noConsecutiveDuplicates (playHistory (playPause s))
        \<and> noConsecutiveDuplicates (playHistory (playNext g s))
        \<and> noConsecutiveDuplicates (playHistory (playPrevious s))
        \<and> noConsecutiveDuplicates (playHistory (handleMediaStatus st g s)))"
proof -
  have "reachable s \<longrightarrow> noConsecutiveDuplicates (playHistory s)"
    using reachable_historyInv [of s] by (simp add: historyInv_def)
  moreover have "playHistory (playTrack fp True s) =
       (if fp \<noteq> [] \<and> (playHistory s = [] \<or> last (playHistory s) \<noteq> fp)
        then playHistory s @ [fp] else playHistory s)"
    by (simp add: playTrack_history)
  moreover have "playHistory (playTrack fp False s) = playHistory s"
    by (simp add: playTrack_history)
  moreover have "2 \<le> length (playHistory s) \<longrightarrow>
      playHistory (playPrevious s) = butlast (playHistory s)"
    by (simp add: playPrevious_pops)
  moreover have "length (playHistory s) < 2 \<longrightarrow>
      historyAppend (playHistory s) (playHistory (playPrevious s))"
    by (simp add: historyAppend_playPrevious_fallback)
  moreover have "playHistory (scanFolder path es s) = playHistory s"
    by (rule scanFolder_playHistory)
  moreover have "playHistory (setFilterText q s) = playHistory s"
    by (simp add: setFilterText_def)
  moreover have "playHistory (stop s) = playHistory s"
    by (simp add: stop_def)
  moreover have "playHistory (toggleShuffle s) = playHistory s"
    by (simp add: toggleShuffle_def)
  moreover have "playHistory (cycleRepeat s) = playHistory s"
    by (simp add: cycleRepeat_def)
  moreover have "historyAppend (playHistory s) (playHistory (playIndex i s))
      \<and> historyAppend (playHistory s) (playHistory (playSelected s))
      \<and> historyAppend (playHistory s) (playHistory (playPause s))
      \<and> historyAppend (playHistory s) (playHistory (playNext g s))
      \<and> historyAppend (playHistory s) (playHistory (handleMediaStatus st g s))"
    by (simp add: playSelected_def historyAppend_playIndex historyAppend_playPause
        historyAppend_playNext historyAppend_handleMediaStatus)
  moreover have "historyStep (playHistory s) (playHistory (playPrevious s))"
    by (rule historyStep_playPrevious)
  moreover have "noConsecutiveDuplicates (playHistory s) \<longrightarrow>
        noConsecutiveDuplicates (playHistory (playTrack fp b s))
        \<and> noConsecutiveDuplicates (playHistory (playIndex i s))
        \<and> noConsecutiveDuplicates (playHistory (playSelected s))
        \<and> noConsecutiveDuplicates (playHistory (playPause s))
        \<and> noConsecutiveDuplicates (playHistory (playNext g s))
        \<and> noConsecutiveDuplicates (playHistory (playPrevious s))
        \<and> noConsecutiveDuplicates (playHistory (handleMediaStatus st g s))"
    by (simp add: noConsecutiveDuplicates_playTrack noConsecutiveDuplicates_playIndex
        playSelected_def noConsecutiveDuplicates_playPause noConsecutiveDuplicates_playNext
        noConsecutiveDuplicates_playPrevious noConsecutiveDuplicates_handleMediaStatus)
  ultimately show ?thesis
    by blast
qed

theorem playHistory_no_consecutive_duplicates_witness:
  "noConsecutiveDuplicates (playHistory playingSecond)
   \<and> 2 \<le> length (playHistory playingSecond)
   \<and> playHistory (playPrevious playingSecond) = [''/m/song.mp3'']
   \<and> playHistory (playTrack ''/m/sub/SONG.MP3'' True playingSecond) = playHistory playingSecond
   \<and> playHistory (playTrack ''/m/song.mp3'' True playingSecond)
       = [''/m/song.mp3'', ''/m/sub/SONG.MP3'', ''/m/song.mp3'']
   \<and> noConsecutiveDuplicates (playHistory (playNext 0 playingSecond))
   \<and> length (playHistory playingLast) < 2
   \<and> historyAppend (playHistory playingLast) (playHistory (playPrevious playingLast))"
proof -
  have h: "playHistory playingSecond = [''/m/song.mp3'', ''/m/sub/SONG.MP3'']"
    by (rule playingSecond_fields)
  note t = playHistory_no_consecutive_duplicates [where s = playingSecond and g = 0]
  from t reachable_playingSecond
  have a: "noConsecutiveDuplicates (playHistory playingSecond)"
    by blast
  from h have b: "2 \<le> length (playHistory playingSecond)"
    by simp
  from t b have "playHistory (playPrevious playingSecond) = butlast (playHistory playingSecond)"
    by blast
  with h have c: "playHistory (playPrevious playingSecond) = [''/m/song.mp3'']"
    by simp
  from t [where fp = "''/m/sub/SONG.MP3''"] h
  have d: "playHistory (playTrack ''/m/sub/SONG.MP3'' True playingSecond) = playHistory playingSecond"
    by simp
  from t [where fp = "''/m/song.mp3''"] h
  have e: "playHistory (playTrack ''/m/song.mp3'' True playingSecond)
       = [''/m/song.mp3'', ''/m/sub/SONG.MP3'', ''/m/song.mp3'']"
    by simp
  from t a have f: "noConsecutiveDuplicates (playHistory (playNext 0 playingSecond))"
    by blast
  have k: "length (playHistory playingLast) < 2"
    by code_simp
  from playHistory_no_consecutive_duplicates [where s = playingLast] k
  have l: "historyAppend (playHistory playingLast) (playHistory (playPrevious playingLast))"
    by blast
  from a b c d e f k l show ?thesis
    by blast
qed

text \<open>
  Claim C10 as the specification words it fails in one clause, that \<open>previous()\<close> only
  removes the last entry and replays without recording: with the second row playing and a
  history of that one track, \<^const>\<open>playPrevious\<close> plays the first row with recording
  on, and the history grows from one entry to two.
\<close>

theorem playPrevious_appends_counterexample:
  "reachable playingLast
   \<and> playHistory playingLast = [''/m/sub/SONG.MP3'']
   \<and> playHistory (playPrevious playingLast) = [''/m/sub/SONG.MP3'', ''/m/song.mp3'']
   \<and> currentFilePath (playPrevious playingLast) = ''/m/song.mp3''"
proof -
  have "playHistory playingLast = [''/m/sub/SONG.MP3'']"
    "playHistory (playPrevious playingLast) = [''/m/sub/SONG.MP3'', ''/m/song.mp3'']"
    "currentFilePath (playPrevious playingLast) = ''/m/song.mp3''"
    by code_simp+
  with reachable_playingLast show ?thesis
    by simp
qed

section \<open>Claims about navigation\<close>

lemma index_Some: "0 \<le> r \<Longrightarrow> r < rowCount s \<Longrightarrow> index s r = Some (nat r)"
  by (simp add: index_def)

lemma row_ge: "- 1 \<le> row i"
  by (simp add: row_def split: option.split)

lemma playIndex_visible:
  "r < length (visibleRows s) \<Longrightarrow>
   playIndex (Some r) s = playTrack (filePath (visibleRows s ! r)) True s"
  by (simp add: playIndex_def rowFilePath_def)

text \<open>
  Claim C3. With shuffle off, \<^const>\<open>playNext\<close> does nothing on an empty list of visible
  rows. Otherwise it takes the row after the current one (row 0 when there is no current
  row) and plays it; when that row is past the end it plays row 0 if the repeat mode is All
  (1), and does nothing in any other repeat mode. With 3 rows and current row 2 this gives
  row 0 under All and no row (\<open>-1\<close>) under Off.
\<close>

theorem playNext_sequential:
  assumes "\<not> shuffleEnabled s"
  shows
    "(rowCount s = 0 \<longrightarrow> playNext g s = s)
     \<and> nextRow t c False m g = (if t \<le> c + 1 then (if m = 1 then 0 else - 1) else c + 1)
     \<and> (row (currentIndex s) + 1 < rowCount s \<longrightarrow>
          playNext g s =
            playTrack (filePath (visibleRows s ! nat (row (currentIndex s) + 1))) True s)
     \<and> (0 < rowCount s \<and> rowCount s \<le> row (currentIndex s) + 1 \<and> repeatMode s = 1 \<longrightarrow>
          playNext g s = playTrack (filePath (visibleRows s ! 0)) True s)
     \<and> (rowCount s \<le> row (currentIndex s) + 1 \<and> repeatMode s \<noteq> 1 \<longrightarrow> playNext g s = s)
     \<and> nextRow 3 2 False 1 g = 0
     \<and> nextRow 3 2 False 0 g = - 1"
proof -
  let ?c = "row (currentIndex s)"
  have c: "0 \<le> ?c + 1"
    using row_ge [of "currentIndex s"] by simp
  have n: "\<And>t c m. nextRow t c False m g = (if t \<le> c + 1 then (if m = 1 then 0 else - 1) else c + 1)"
    by (simp add: nextRow_def Let_def)
  have a: "rowCount s = 0 \<longrightarrow> playNext g s = s"
    by (simp add: playNext_def)
  have b: "?c + 1 < rowCount s \<longrightarrow>
      playNext g s = playTrack (filePath (visibleRows s ! nat (?c + 1))) True s"
  proof
    assume lt: "?c + 1 < rowCount s"
    then have "nat (?c + 1) < length (visibleRows s)"
      using c by (simp add: rowCount_def)
    then have "playIndex (Some (nat (?c + 1))) s =
        playTrack (filePath (visibleRows s ! nat (?c + 1))) True s"
      by (rule playIndex_visible)
    moreover from lt c have "index s (?c + 1) = Some (nat (?c + 1))"
      by (simp add: index_Some)
    moreover from lt c have "rowCount s \<noteq> 0" "?c + 1 \<noteq> - 1"
      by simp_all
    ultimately show "playNext g s = playTrack (filePath (visibleRows s ! nat (?c + 1))) True s"
      using lt assms by (simp add: playNext_def Let_def n)
  qed
  have d: "0 < rowCount s \<and> rowCount s \<le> ?c + 1 \<and> repeatMode s = 1 \<longrightarrow>
      playNext g s = playTrack (filePath (visibleRows s ! 0)) True s"
  proof
    assume h: "0 < rowCount s \<and> rowCount s \<le> ?c + 1 \<and> repeatMode s = 1"
    then have "0 < length (visibleRows s)"
      by (simp add: rowCount_def)
    then have "playIndex (Some 0) s = playTrack (filePath (visibleRows s ! 0)) True s"
      by (rule playIndex_visible)
    moreover from h have "index s 0 = Some 0"
      by (simp add: index_def)
    ultimately show "playNext g s = playTrack (filePath (visibleRows s ! 0)) True s"
      using h assms by (simp add: playNext_def Let_def n)
  qed
  have e: "rowCount s \<le> ?c + 1 \<and> repeatMode s \<noteq> 1 \<longrightarrow> playNext g s = s"
    using assms by (simp add: playNext_def Let_def n)
  have f: "nextRow 3 2 False 1 g = 0" "nextRow 3 2 False 0 g = - 1"
    by (simp_all add: n)
  from a n [of t c m] b d e f show ?thesis
    by blast
qed

theorem playNext_sequential_witness:
  "\<not> shuffleEnabled playingFirst
   \<and> playNext 0 playingFirst = playTrack ''/m/sub/SONG.MP3'' True playingFirst
   \<and> currentFilePath (playNext 0 playingFirst) = ''/m/sub/SONG.MP3''
   \<and> playNext 0 playingSecond = playingSecond
   \<and> playNext 0 (cycleRepeat playingSecond) = playTrack ''/m/song.mp3'' True (cycleRepeat playingSecond)"
proof -
  have s1: "\<not> shuffleEnabled playingFirst" "row (currentIndex playingFirst) + 1 < rowCount playingFirst"
    "filePath (visibleRows playingFirst ! nat (row (currentIndex playingFirst) + 1)) = ''/m/sub/SONG.MP3''"
    by code_simp+
  have s2: "\<not> shuffleEnabled playingSecond"
    "rowCount playingSecond \<le> row (currentIndex playingSecond) + 1 \<and> repeatMode playingSecond \<noteq> 1"
    by code_simp+
  have s3: "\<not> shuffleEnabled (cycleRepeat playingSecond)"
    "0 < rowCount (cycleRepeat playingSecond)
     \<and> rowCount (cycleRepeat playingSecond) \<le> row (currentIndex (cycleRepeat playingSecond)) + 1
     \<and> repeatMode (cycleRepeat playingSecond) = 1"
    "filePath (visibleRows (cycleRepeat playingSecond) ! 0) = ''/m/song.mp3''"
    by code_simp+
  from playNext_sequential [OF s1(1), of 0] s1(2,3)
  have a: "playNext 0 playingFirst = playTrack ''/m/sub/SONG.MP3'' True playingFirst"
    by simp
  have b: "currentFilePath (playTrack ''/m/sub/SONG.MP3'' True playingFirst) = ''/m/sub/SONG.MP3''"
    by (simp add: playTrack_plays)
  from playNext_sequential [OF s2(1), of 0] s2(2)
  have c: "playNext 0 playingSecond = playingSecond"
    by blast
  from playNext_sequential [OF s3(1), of 0] s3(2,3)
  have d: "playNext 0 (cycleRepeat playingSecond) =
      playTrack ''/m/song.mp3'' True (cycleRepeat playingSecond)"
    by simp
  from s1(1) a b c d show ?thesis
    by simp
qed

text \<open>
  Claim C9. With shuffle on and at least one visible row, whatever the generator draws,
  whatever the current row and whatever the repeat mode, the row that \<^const>\<open>playNext\<close>
  picks lies in \<open>[0, rowCount)\<close>; it is never \<open>-1\<close>, and that row is played. In a
  reachable state the player is then playing a track of the visible list, so playback does
  not stop at the end of the list under repeat Off.
\<close>

theorem playNext_shuffle:
  assumes "shuffleEnabled s" and "0 < rowCount s"
  shows
    "0 \<le> nextRow (rowCount s) c True m g
     \<and> nextRow (rowCount s) c True m g < rowCount s
     \<and> nextRow (rowCount s) c True m g = bounded g (rowCount s)
     \<and> nextRow (rowCount s) c True m g \<noteq> - 1
     \<and> playNext g s =
         playTrack (filePath (visibleRows s ! nat (bounded g (rowCount s)))) True s
     \<and> (reachable s \<longrightarrow>
          playbackState (playNext g s) = PlayingState
          \<and> currentFilePath (playNext g s) \<in> filePath ` set (visibleRows s)
          \<and> source (playNext g s) = currentFilePath (playNext g s))"
proof -
  let ?r = "bounded g (rowCount s)"
  from assms(2) have r: "0 \<le> ?r" "?r < rowCount s"
    using bounded_range [of "rowCount s" g] by simp_all
  then have n: "\<And>c m. nextRow (rowCount s) c True m g = ?r"
    by (simp add: nextRow_def Let_def)
  from r have len: "nat ?r < length (visibleRows s)"
    by (simp add: rowCount_def)
  then have p: "playIndex (Some (nat ?r)) s = playTrack (filePath (visibleRows s ! nat ?r)) True s"
    by (rule playIndex_visible)
  from r have "index s ?r = Some (nat ?r)"
    by (simp add: index_Some)
  with r assms p have pn: "playNext g s = playTrack (filePath (visibleRows s ! nat ?r)) True s"
    by (simp add: playNext_def Let_def n)
  have "reachable s \<longrightarrow>
          playbackState (playNext g s) = PlayingState
          \<and> currentFilePath (playNext g s) \<in> filePath ` set (visibleRows s)
          \<and> source (playNext g s) = currentFilePath (playNext g s)"
  proof
    assume "reachable s"
    from reachable_rowFilePath [OF this len] len
    have "filePath (visibleRows s ! nat ?r) \<noteq> []"
      and "filePath (visibleRows s ! nat ?r) \<in> filePath ` set (visibleRows s)"
      by (simp_all add: rowFilePath_def)
    then show "playbackState (playNext g s) = PlayingState
          \<and> currentFilePath (playNext g s) \<in> filePath ` set (visibleRows s)
          \<and> source (playNext g s) = currentFilePath (playNext g s)"
      by (simp add: pn playTrack_plays)
  qed
  with r n pn show ?thesis
    by simp
qed

theorem playNext_shuffle_witness:
  "shuffleEnabled (toggleShuffle playingSecond)
   \<and> 0 < rowCount (toggleShuffle playingSecond)
   \<and> repeatMode (toggleShuffle playingSecond) = 0
   \<and> row (currentIndex (toggleShuffle playingSecond)) + 1 = rowCount (toggleShuffle playingSecond)
   \<and> playbackState (playNext 4294967295 (toggleShuffle playingSecond)) = PlayingState
   \<and> nextRow (rowCount (toggleShuffle playingSecond)) 1 True 0 4294967295 < rowCount (toggleShuffle playingSecond)"
proof -
  have h: "shuffleEnabled (toggleShuffle playingSecond)" "0 < rowCount (toggleShuffle playingSecond)"
    by code_simp+
  have e: "repeatMode (toggleShuffle playingSecond) = 0"
    "row (currentIndex (toggleShuffle playingSecond)) + 1 = rowCount (toggleShuffle playingSecond)"
    by code_simp+
  have r: "reachable (toggleShuffle playingSecond)"
    using reachable_playingSecond by (rule r_toggleShuffle)
  from playNext_shuffle [OF h, of 1 0 4294967295] r h e show ?thesis
    by blast
qed

lemma reachable_history_paths: "reachable s \<Longrightarrow> [] \<notin> set (playHistory s)"
  using reachable_historyInv [of s] by (simp add: historyInv_def)

text \<open>
  Claim C4. In a reachable state whose history has two or more entries,
  \<^const>\<open>playPrevious\<close> removes the last entry and plays the entry that is then last,
  recording nothing: the history is the old one without its last entry, and the player is
  playing the new last entry. So a history \<open>[a, b, c]\<close> becomes \<open>[a, b]\<close> with \<open>b\<close>
  playing. With fewer than two entries it plays the row before the current one; when there
  is none (the current row is the first, or there is no current row) it plays the last row
  if the repeat mode is All (1) and the list is not empty, and does nothing otherwise.
\<close>

theorem playPrevious_history:
  assumes "reachable s"
  shows
    "(2 \<le> length (playHistory s) \<longrightarrow>
        playPrevious s =
          playTrack (last (butlast (playHistory s))) False
            (s\<lparr>playHistory := butlast (playHistory s)\<rparr>)
        \<and> playHistory (playPrevious s) = butlast (playHistory s)
        \<and> currentFilePath (playPrevious s) = last (butlast (playHistory s))
        \<and> source (playPrevious s) = last (butlast (playHistory s))
        \<and> playbackState (playPrevious s) = PlayingState)
     \<and> (playHistory s = [a, b, c] \<longrightarrow>
          playHistory (playPrevious s) = [a, b] \<and> currentFilePath (playPrevious s) = b)
     \<and> prevRow t r m = (if r - 1 < 0 then (if m = 1 then t - 1 else - 1) else r - 1)
     \<and> (length (playHistory s) < 2 \<longrightarrow>
          playPrevious s =
            (if 0 \<le> row (currentIndex s) - 1
             then playTrack (filePath (visibleRows s ! nat (row (currentIndex s) - 1))) True s
             else if repeatMode s = 1 \<and> 0 < rowCount s
             then playTrack (filePath (visibleRows s ! nat (rowCount s - 1))) True s
             else s))"
proof -
  let ?h = "playHistory s"
  have pop: "2 \<le> length ?h \<longrightarrow>
        playPrevious s = playTrack (last (butlast ?h)) False (s\<lparr>playHistory := butlast ?h\<rparr>)
        \<and> playHistory (playPrevious s) = butlast ?h
        \<and> currentFilePath (playPrevious s) = last (butlast ?h)
        \<and> source (playPrevious s) = last (butlast ?h)
        \<and> playbackState (playPrevious s) = PlayingState"
  proof
    assume two: "2 \<le> length ?h"
    then have "butlast ?h \<noteq> []"
      by (cases ?h rule: rev_cases) auto
    then have "last (butlast ?h) \<in> set ?h"
      by (meson in_set_butlastD last_in_set)
    with assms have ne: "last (butlast ?h) \<noteq> []"
      using reachable_history_paths [of s] by auto
    from two have eq: "playPrevious s =
        playTrack (last (butlast ?h)) False (s\<lparr>playHistory := butlast ?h\<rparr>)"
      by (simp add: playPrevious_def Let_def)
    from two have "playHistory (playPrevious s) = butlast ?h"
      by (rule playPrevious_pops)
    with eq playTrack_plays [OF ne, of False "s\<lparr>playHistory := butlast ?h\<rparr>"]
    show "playPrevious s = playTrack (last (butlast ?h)) False (s\<lparr>playHistory := butlast ?h\<rparr>)
        \<and> playHistory (playPrevious s) = butlast ?h
        \<and> currentFilePath (playPrevious s) = last (butlast ?h)
        \<and> source (playPrevious s) = last (butlast ?h)
        \<and> playbackState (playPrevious s) = PlayingState"
      by simp
  qed
  have three: "?h = [a, b, c] \<longrightarrow>
      playHistory (playPrevious s) = [a, b] \<and> currentFilePath (playPrevious s) = b"
  proof
    assume h: "?h = [a, b, c]"
    then have "2 \<le> length ?h" by simp
    with pop have "playHistory (playPrevious s) = butlast ?h
        \<and> currentFilePath (playPrevious s) = last (butlast ?h)"
      by blast
    with h show "playHistory (playPrevious s) = [a, b] \<and> currentFilePath (playPrevious s) = b"
      by simp
  qed
  have p: "\<And>t r m. prevRow t r m = (if r - 1 < 0 then (if m = 1 then t - 1 else - 1) else r - 1)"
    by (simp add: prevRow_def Let_def)
  let ?c = "row (currentIndex s)"
  have fallback: "length ?h < 2 \<longrightarrow>
          playPrevious s =
            (if 0 \<le> ?c - 1
             then playTrack (filePath (visibleRows s ! nat (?c - 1))) True s
             else if repeatMode s = 1 \<and> 0 < rowCount s
             then playTrack (filePath (visibleRows s ! nat (rowCount s - 1))) True s
             else s)"
  proof
    assume few: "length ?h < 2"
    from assms have v: "validIndex s (currentIndex s)"
      by (rule reachable_validIndex)
    show "playPrevious s =
            (if 0 \<le> ?c - 1
             then playTrack (filePath (visibleRows s ! nat (?c - 1))) True s
             else if repeatMode s = 1 \<and> 0 < rowCount s
             then playTrack (filePath (visibleRows s ! nat (rowCount s - 1))) True s
             else s)"
    proof (cases "0 \<le> ?c - 1")
      case True
      with v have lt: "?c - 1 < rowCount s" and len: "nat (?c - 1) < length (visibleRows s)"
        by (auto simp: validIndex_def row_def rowCount_def split: option.splits)
      from True lt have "index s (?c - 1) = Some (nat (?c - 1))"
        by (simp add: index_Some)
      with True few playIndex_visible [OF len] show ?thesis
        by (simp add: playPrevious_def Let_def p)
    next
      case False
      show ?thesis
      proof (cases "repeatMode s = 1 \<and> 0 < rowCount s")
        case True
        then have len: "nat (rowCount s - 1) < length (visibleRows s)"
          unfolding rowCount_def by linarith
        from True have "index s (rowCount s - 1) = Some (nat (rowCount s - 1))"
          by (simp add: index_Some)
        with True False few playIndex_visible [OF len] show ?thesis
          by (simp add: playPrevious_def Let_def p)
      next
        case no: False
        have "0 \<le> rowCount s"
          by (simp add: rowCount_def)
        with no have "repeatMode s \<noteq> 1 \<or> rowCount s = 0"
          by auto
        with False few show ?thesis
          by (auto simp: playPrevious_def Let_def p)
      qed
    qed
  qed
  from pop three p [of t r m] fallback show ?thesis
    by blast
qed

theorem playPrevious_history_witness:
  "playHistory playingThird = [''/m/song.mp3'', ''/m/sub/SONG.MP3'', ''/m/song.mp3'']
   \<and> playHistory (playPrevious playingThird) = [''/m/song.mp3'', ''/m/sub/SONG.MP3'']
   \<and> currentFilePath (playPrevious playingThird) = ''/m/sub/SONG.MP3''
   \<and> playbackState (playPrevious playingThird) = PlayingState
   \<and> playPrevious playingFirst = playingFirst
   \<and> playPrevious (cycleRepeat playingFirst)
       = playTrack ''/m/sub/SONG.MP3'' True (cycleRepeat playingFirst)"
proof -
  have h: "playHistory playingThird = [''/m/song.mp3'', ''/m/sub/SONG.MP3'', ''/m/song.mp3'']"
    by code_simp
  then have two: "2 \<le> length (playHistory playingThird)"
    by simp
  from playPrevious_history [OF reachable_playingThird] two
  have "playHistory (playPrevious playingThird) = butlast (playHistory playingThird)
      \<and> currentFilePath (playPrevious playingThird) = last (butlast (playHistory playingThird))
      \<and> playbackState (playPrevious playingThird) = PlayingState"
    by blast
  with h have a: "playHistory (playPrevious playingThird) = [''/m/song.mp3'', ''/m/sub/SONG.MP3'']
      \<and> currentFilePath (playPrevious playingThird) = ''/m/sub/SONG.MP3''
      \<and> playbackState (playPrevious playingThird) = PlayingState"
    by simp
  have f1: "length (playHistory playingFirst) < 2"
    "\<not> 0 \<le> row (currentIndex playingFirst) - 1"
    "\<not> (repeatMode playingFirst = 1 \<and> 0 < rowCount playingFirst)"
    by code_simp+
  from playPrevious_history [OF reachable_playingFirst] f1
  have b: "playPrevious playingFirst = playingFirst"
    by simp
  have r: "reachable (cycleRepeat playingFirst)"
    using reachable_playingFirst by (rule r_cycleRepeat)
  have f2: "length (playHistory (cycleRepeat playingFirst)) < 2"
    "\<not> 0 \<le> row (currentIndex (cycleRepeat playingFirst)) - 1"
    "repeatMode (cycleRepeat playingFirst) = 1 \<and> 0 < rowCount (cycleRepeat playingFirst)"
    "filePath (visibleRows (cycleRepeat playingFirst) ! nat (rowCount (cycleRepeat playingFirst) - 1))
       = ''/m/sub/SONG.MP3''"
    by code_simp+
  from playPrevious_history [OF r] f2
  have c: "playPrevious (cycleRepeat playingFirst)
       = playTrack ''/m/sub/SONG.MP3'' True (cycleRepeat playingFirst)"
    by simp
  from h a b c show ?thesis
    by blast
qed

section \<open>Claims about the playback controller\<close>

text \<open>
  Claim C8. At end of media with repeat mode One (2), \<^const>\<open>handleMediaStatus\<close> plays
  \<^verbatim>\<open>currentFilePath_\<close> again with recording off: the play history and
  \<^verbatim>\<open>currentFilePath_\<close> are what they were, and (when there is a current file) the
  player is playing it. In every other repeat mode end of media is \<^const>\<open>playNext\<close>,
  and every other media status changes nothing.
\<close>

theorem handleMediaStatus_end_of_media:
  "(repeatMode s = 2 \<longrightarrow>
      handleMediaStatus EndOfMedia g s = playTrack (currentFilePath s) False s
      \<and> playHistory (handleMediaStatus EndOfMedia g s) = playHistory s
      \<and> currentFilePath (handleMediaStatus EndOfMedia g s) = currentFilePath s
      \<and> (currentFilePath s \<noteq> [] \<longrightarrow>
           source (handleMediaStatus EndOfMedia g s) = currentFilePath s
           \<and> playbackState (handleMediaStatus EndOfMedia g s) = PlayingState))
   \<and> (repeatMode s \<noteq> 2 \<longrightarrow> handleMediaStatus EndOfMedia g s = playNext g s)
   \<and> (st \<noteq> EndOfMedia \<longrightarrow> handleMediaStatus st g s = s)"
proof -
  have cur: "currentFilePath (playTrack (currentFilePath s) False s) = currentFilePath s"
    by (cases "currentFilePath s = []") (simp_all add: playTrack_Nil playTrack_plays)
  have "repeatMode s = 2 \<longrightarrow>
      handleMediaStatus EndOfMedia g s = playTrack (currentFilePath s) False s
      \<and> playHistory (handleMediaStatus EndOfMedia g s) = playHistory s
      \<and> currentFilePath (handleMediaStatus EndOfMedia g s) = currentFilePath s
      \<and> (currentFilePath s \<noteq> [] \<longrightarrow>
           source (handleMediaStatus EndOfMedia g s) = currentFilePath s
           \<and> playbackState (handleMediaStatus EndOfMedia g s) = PlayingState)"
    by (simp add: handleMediaStatus_def playTrack_history cur playTrack_plays)
  moreover have "repeatMode s \<noteq> 2 \<longrightarrow> handleMediaStatus EndOfMedia g s = playNext g s"
    by (simp add: handleMediaStatus_def)
  moreover have "st \<noteq> EndOfMedia \<longrightarrow> handleMediaStatus st g s = s"
    by (simp add: handleMediaStatus_def)
  ultimately show ?thesis
    by blast
qed

theorem handleMediaStatus_end_of_media_witness:
  "repeatMode (stop (cycleRepeat (cycleRepeat playingSecond))) = 2
   \<and> playHistory (handleMediaStatus EndOfMedia 0 (stop (cycleRepeat (cycleRepeat playingSecond))))
       = [''/m/song.mp3'', ''/m/sub/SONG.MP3'']
   \<and> currentFilePath (handleMediaStatus EndOfMedia 0 (stop (cycleRepeat (cycleRepeat playingSecond))))
       = ''/m/sub/SONG.MP3''
   \<and> playbackState (handleMediaStatus EndOfMedia 0 (stop (cycleRepeat (cycleRepeat playingSecond))))
       = PlayingState
   \<and> handleMediaStatus EndOfMedia 0 playingSecond = playNext 0 playingSecond
   \<and> handleMediaStatus LoadedMedia 0 playingSecond = playingSecond"
proof -
  define s where "s = stop (cycleRepeat (cycleRepeat playingSecond))"
  have f: "repeatMode s = 2" "playHistory s = [''/m/song.mp3'', ''/m/sub/SONG.MP3'']"
    "currentFilePath s = ''/m/sub/SONG.MP3''"
    unfolding s_def by code_simp+
  from f(3) have ne: "currentFilePath s \<noteq> []"
    by simp
  from handleMediaStatus_end_of_media [of s 0] f(1) ne
  have "playHistory (handleMediaStatus EndOfMedia 0 s) = playHistory s
      \<and> currentFilePath (handleMediaStatus EndOfMedia 0 s) = currentFilePath s
      \<and> playbackState (handleMediaStatus EndOfMedia 0 s) = PlayingState"
    by blast
  with f have a: "playHistory (handleMediaStatus EndOfMedia 0 s) = [''/m/song.mp3'', ''/m/sub/SONG.MP3'']
      \<and> currentFilePath (handleMediaStatus EndOfMedia 0 s) = ''/m/sub/SONG.MP3''
      \<and> playbackState (handleMediaStatus EndOfMedia 0 s) = PlayingState"
    by simp
  have m: "repeatMode playingSecond \<noteq> 2"
    by (simp add: playingSecond_fields)
  from handleMediaStatus_end_of_media [of playingSecond 0] m
  have b: "handleMediaStatus EndOfMedia 0 playingSecond = playNext 0 playingSecond"
    by blast
  have "LoadedMedia \<noteq> EndOfMedia"
    by simp
  with handleMediaStatus_end_of_media [of playingSecond 0 LoadedMedia]
  have c: "handleMediaStatus LoadedMedia 0 playingSecond = playingSecond"
    by blast
  from f(1) a b c show ?thesis
    unfolding s_def by blast
qed

text \<open>
  Claim C6, as the code has it. \<^const>\<open>playPause\<close> pauses when the player is playing;
  else resumes when a source is loaded; else plays the selected row when the list view has a
  current index; else plays the first visible row when the proxy has rows; else does
  nothing. The fourth test is on the visible rows, not on the catalog: with every track
  filtered out, nothing is played.
\<close>

theorem playPause_precedence:
  "(playbackState s = PlayingState \<longrightarrow> playPause s = s\<lparr>playbackState := PausedState\<rparr>)
   \<and> (playbackState s \<noteq> PlayingState \<and> source s \<noteq> [] \<longrightarrow>
        playPause s = s\<lparr>playbackState := PlayingState\<rparr>)
   \<and> (playbackState s \<noteq> PlayingState \<and> source s = [] \<and> currentIndex s = Some r \<longrightarrow>
        playPause s = playTrack (rowFilePath s r) True s
        \<and> (reachable s \<longrightarrow>
             rowFilePath s r = filePath (visibleRows s ! r)
             \<and> currentFilePath (playPause s) = filePath (visibleRows s ! r)
             \<and> playbackState (playPause s) = PlayingState))
   \<and> (playbackState s \<noteq> PlayingState \<and> source s = [] \<and> currentIndex s = None
        \<and> visibleRows s \<noteq> [] \<longrightarrow>
        playPause s = playTrack (filePath (visibleRows s ! 0)) True s
        \<and> (reachable s \<longrightarrow>
             currentFilePath (playPause s) = filePath (visibleRows s ! 0)
             \<and> playbackState (playPause s) = PlayingState))
   \<and> (playbackState s \<noteq> PlayingState \<and> source s = [] \<and> currentIndex s = None
        \<and> visibleRows s = [] \<longrightarrow>
        playPause s = s)"
proof -
  have a: "playbackState s = PlayingState \<longrightarrow> playPause s = s\<lparr>playbackState := PausedState\<rparr>"
    by (simp add: playPause_def)
  have b: "playbackState s \<noteq> PlayingState \<and> source s \<noteq> [] \<longrightarrow>
        playPause s = s\<lparr>playbackState := PlayingState\<rparr>"
    by (simp add: playPause_def)
  have c: "playbackState s \<noteq> PlayingState \<and> source s = [] \<and> currentIndex s = Some r \<longrightarrow>
        playPause s = playTrack (rowFilePath s r) True s
        \<and> (reachable s \<longrightarrow>
             rowFilePath s r = filePath (visibleRows s ! r)
             \<and> currentFilePath (playPause s) = filePath (visibleRows s ! r)
             \<and> playbackState (playPause s) = PlayingState)"
  proof
    assume h: "playbackState s \<noteq> PlayingState \<and> source s = [] \<and> currentIndex s = Some r"
    then have eq: "playPause s = playTrack (rowFilePath s r) True s"
      by (simp add: playPause_def playSelected_def playIndex_def)
    have "reachable s \<longrightarrow>
             rowFilePath s r = filePath (visibleRows s ! r)
             \<and> currentFilePath (playPause s) = filePath (visibleRows s ! r)
             \<and> playbackState (playPause s) = PlayingState"
    proof
      assume rs: "reachable s"
      with h have len: "r < length (visibleRows s)"
        using reachable_validIndex [of s] by (simp add: validIndex_def)
      from reachable_rowFilePath [OF rs len] have ne: "rowFilePath s r \<noteq> []"
        by simp
      from len have p: "rowFilePath s r = filePath (visibleRows s ! r)"
        by (rule rowFilePath_visible)
      from playTrack_plays [OF ne, of True s] eq p
      show "rowFilePath s r = filePath (visibleRows s ! r)
             \<and> currentFilePath (playPause s) = filePath (visibleRows s ! r)
             \<and> playbackState (playPause s) = PlayingState"
        by simp
    qed
    with eq show "playPause s = playTrack (rowFilePath s r) True s
        \<and> (reachable s \<longrightarrow>
             rowFilePath s r = filePath (visibleRows s ! r)
             \<and> currentFilePath (playPause s) = filePath (visibleRows s ! r)
             \<and> playbackState (playPause s) = PlayingState)"
      by blast
  qed
  have d: "playbackState s \<noteq> PlayingState \<and> source s = [] \<and> currentIndex s = None
        \<and> visibleRows s \<noteq> [] \<longrightarrow>
        playPause s = playTrack (filePath (visibleRows s ! 0)) True s
        \<and> (reachable s \<longrightarrow>
             currentFilePath (playPause s) = filePath (visibleRows s ! 0)
             \<and> playbackState (playPause s) = PlayingState)"
  proof
    assume h: "playbackState s \<noteq> PlayingState \<and> source s = [] \<and> currentIndex s = None
        \<and> visibleRows s \<noteq> []"
    then have len: "0 < length (visibleRows s)"
      by simp
    then have pos: "0 < rowCount s"
      by (simp add: rowCount_def)
    then have "index s 0 = Some 0"
      by (simp add: index_def)
    with h pos playIndex_visible [OF len]
    have eq: "playPause s = playTrack (filePath (visibleRows s ! 0)) True s"
      by (simp add: playPause_def)
    have "reachable s \<longrightarrow>
             currentFilePath (playPause s) = filePath (visibleRows s ! 0)
             \<and> playbackState (playPause s) = PlayingState"
    proof
      assume rs: "reachable s"
      from reachable_rowFilePath [OF rs len] len have ne: "filePath (visibleRows s ! 0) \<noteq> []"
        by (simp add: rowFilePath_def)
      from playTrack_plays [OF ne, of True s] eq
      show "currentFilePath (playPause s) = filePath (visibleRows s ! 0)
             \<and> playbackState (playPause s) = PlayingState"
        by simp
    qed
    with eq show "playPause s = playTrack (filePath (visibleRows s ! 0)) True s
        \<and> (reachable s \<longrightarrow>
             currentFilePath (playPause s) = filePath (visibleRows s ! 0)
             \<and> playbackState (playPause s) = PlayingState)"
      by blast
  qed
  have e: "playbackState s \<noteq> PlayingState \<and> source s = [] \<and> currentIndex s = None
        \<and> visibleRows s = [] \<longrightarrow> playPause s = s"
    by (simp add: playPause_def rowCount_def)
  from a b c d e show ?thesis
    by blast
qed

theorem playPause_precedence_witness:
  "playPause playingFirst = playingFirst\<lparr>playbackState := PausedState\<rparr>
   \<and> playPause (stop playingFirst) = (stop playingFirst)\<lparr>playbackState := PlayingState\<rparr>
   \<and> currentFilePath (playPause scanned) = ''/m/song.mp3''
   \<and> currentFilePath (playPause scannedNoSelection) = ''/m/song.mp3''
   \<and> playbackState (playPause scannedNoSelection) = PlayingState
   \<and> playPause filteredOut = filteredOut"
proof -
  have p1: "playbackState playingFirst = PlayingState"
    by code_simp
  from playPause_precedence [of playingFirst] p1
  have a: "playPause playingFirst = playingFirst\<lparr>playbackState := PausedState\<rparr>"
    by blast
  have p2: "playbackState (stop playingFirst) \<noteq> PlayingState \<and> source (stop playingFirst) \<noteq> []"
    by code_simp
  from playPause_precedence [of "stop playingFirst"] p2
  have b: "playPause (stop playingFirst) = (stop playingFirst)\<lparr>playbackState := PlayingState\<rparr>"
    by blast
  have p3: "playbackState scanned \<noteq> PlayingState \<and> source scanned = [] \<and> currentIndex scanned = Some 0"
    by code_simp
  have k3: "filePath (visibleRows scanned ! 0) = ''/m/song.mp3''"
    by code_simp
  from playPause_precedence [of scanned 0] p3 reachable_scanned
  have "currentFilePath (playPause scanned) = filePath (visibleRows scanned ! 0)"
    by blast
  with k3 have c: "currentFilePath (playPause scanned) = ''/m/song.mp3''"
    by simp
  have p4: "playbackState scannedNoSelection \<noteq> PlayingState \<and> source scannedNoSelection = []
      \<and> currentIndex scannedNoSelection = None \<and> visibleRows scannedNoSelection \<noteq> []"
    by code_simp
  have k4: "filePath (visibleRows scannedNoSelection ! 0) = ''/m/song.mp3''"
    by code_simp
  from playPause_precedence [of scannedNoSelection] p4 reachable_scannedNoSelection
  have "currentFilePath (playPause scannedNoSelection) = filePath (visibleRows scannedNoSelection ! 0)
      \<and> playbackState (playPause scannedNoSelection) = PlayingState"
    by blast
  with k4 have d: "currentFilePath (playPause scannedNoSelection) = ''/m/song.mp3''
      \<and> playbackState (playPause scannedNoSelection) = PlayingState"
    by simp
  have p5: "playbackState filteredOut \<noteq> PlayingState \<and> source filteredOut = []
      \<and> currentIndex filteredOut = None \<and> visibleRows filteredOut = []"
    by code_simp
  from playPause_precedence [of filteredOut] p5
  have e: "playPause filteredOut = filteredOut"
    by blast
  from a b c d e show ?thesis
    by blast
qed

text \<open>
  Claim C6 as the specification words it fails: after scanning the example folder and
  typing a query that matches no track, the catalog holds two tracks, the player is not
  playing, no track is loaded and nothing is selected, yet \<^const>\<open>playPause\<close> does
  nothing, because no row is visible.
\<close>

theorem playPause_catalog_counterexample:
  "reachable filteredOut
   \<and> count filteredOut = 2
   \<and> playbackState filteredOut = StoppedState
   \<and> source filteredOut = []
   \<and> currentIndex filteredOut = None
   \<and> visibleRows filteredOut = []
   \<and> playPause filteredOut = filteredOut"
proof -
  have "count filteredOut = 2" "playbackState filteredOut = StoppedState"
    "source filteredOut = []" "currentIndex filteredOut = None" "visibleRows filteredOut = []"
    by code_simp+
  moreover have "playPause filteredOut = filteredOut"
    by code_simp
  ultimately show ?thesis
    using reachable_filteredOut by simp
qed

section \<open>Claims about the folder scanner\<close>

lemma wildcardMatch_literal:
  "CHR ''*'' \<notin> set p \<Longrightarrow> CHR ''?'' \<notin> set p \<Longrightarrow> wildcardMatch p s \<longleftrightarrow> s = p"
proof (induction p arbitrary: s)
  case Nil
  then show ?case by simp
next
  case (Cons a p)
  then show ?case by (cases s) auto
qed

lemma wildcardMatch_star:
  assumes "CHR ''*'' \<notin> set p" and "CHR ''?'' \<notin> set p"
  shows "wildcardMatch (CHR ''*'' # p) s \<longleftrightarrow> suffix p s"
proof (induction s)
  case Nil
  from assms show ?case by (auto simp: wildcardMatch_literal)
next
  case (Cons c cs)
  from assms have "wildcardMatch p (c # cs) \<longleftrightarrow> c # cs = p"
    by (rule wildcardMatch_literal)
  with Cons show ?case
    by (auto simp: suffix_Cons)
qed

lemma suffix_dot_iff:
  assumes "e \<noteq> []" and "CHR ''.'' \<notin> set e"
  shows "suffix (CHR ''.'' # e) n \<longleftrightarrow> suffix_of n = e"
proof
  assume "suffix (CHR ''.'' # e) n"
  then obtain pre where n: "n = pre @ CHR ''.'' # e"
    by (auto simp: suffix_def)
  then have "rev n = rev e @ CHR ''.'' # rev pre"
    by simp
  moreover from assms(2) have "\<forall>c\<in>set (rev e). c \<noteq> CHR ''.''"
    by auto
  ultimately have "takeWhile (\<lambda>c. c \<noteq> CHR ''.'') (rev n) = rev e"
    by (simp add: takeWhile_tail)
  with n show "suffix_of n = e"
    by (simp add: suffix_of_def)
next
  assume s: "suffix_of n = e"
  with assms(1) have dot: "CHR ''.'' \<in> set n"
    by (auto simp: suffix_of_def split: if_splits)
  with s have e: "rev (takeWhile (\<lambda>c. c \<noteq> CHR ''.'') (rev n)) = e"
    by (simp add: suffix_of_def)
  from dot have "dropWhile (\<lambda>c. c \<noteq> CHR ''.'') (rev n) \<noteq> []"
    by auto
  then obtain x xs where d: "dropWhile (\<lambda>c. c \<noteq> CHR ''.'') (rev n) = x # xs"
    by (cases "dropWhile (\<lambda>c. c \<noteq> CHR ''.'') (rev n)") auto
  then have x: "x = CHR ''.''"
    using hd_dropWhile [of "\<lambda>c. c \<noteq> CHR ''.''" "rev n"] by auto
  have "rev n = takeWhile (\<lambda>c. c \<noteq> CHR ''.'') (rev n) @ dropWhile (\<lambda>c. c \<noteq> CHR ''.'') (rev n)"
    by simp
  with d x e have "rev n = rev e @ CHR ''.'' # xs"
    by (metis rev_rev_ident)
  then have "n = rev xs @ CHR ''.'' # e"
    by (metis rev.simps(2) rev_append rev_rev_ident append.assoc append_Cons append_Nil)
  then show "suffix (CHR ''.'' # e) n"
    by (simp add: suffix_def)
qed

lemma kFilters_lower: "map toLower kFilters = kFilters"
  by code_simp

lemma matchesFilters_kFilters:
  "matchesFilters kFilters {Files} name \<longleftrightarrow> hasAllowedExtension name"
proof -
  have m: "matchesFilters kFilters {Files} name \<longleftrightarrow>
      list_ex (\<lambda>pat. wildcardMatch pat (toLower name)) (map toLower kFilters)"
    by (simp add: matchesFilters_def list_ex_iff)
  have star: "\<And>e. e \<in> set allowList \<Longrightarrow>
      wildcardMatch (CHR ''*'' # CHR ''.'' # e) (toLower name) \<longleftrightarrow> suffix_of (toLower name) = e"
  proof -
    fix e
    assume e: "e \<in> set allowList"
    then have lit: "CHR ''*'' \<notin> set (CHR ''.'' # e)" "CHR ''?'' \<notin> set (CHR ''.'' # e)"
      and ne: "e \<noteq> []" and nodot: "CHR ''.'' \<notin> set e"
      by (auto simp: allowList_def)
    from wildcardMatch_star [OF lit] suffix_dot_iff [OF ne nodot]
    show "wildcardMatch (CHR ''*'' # CHR ''.'' # e) (toLower name) \<longleftrightarrow> suffix_of (toLower name) = e"
      by simp
  qed
  have k: "kFilters = map (\<lambda>e. CHR ''*'' # CHR ''.'' # e) allowList"
    by (simp add: kFilters_def allowList_def)
  have "list_ex (\<lambda>pat. wildcardMatch pat (toLower name)) kFilters \<longleftrightarrow>
      (\<exists>e\<in>set allowList. wildcardMatch (CHR ''*'' # CHR ''.'' # e) (toLower name))"
    unfolding k by (simp add: list_ex_iff)
  also have "\<dots> \<longleftrightarrow> (\<exists>e\<in>set allowList. suffix_of (toLower name) = e)"
    using star by blast
  also have "\<dots> \<longleftrightarrow> hasAllowedExtension name"
    by (auto simp: hasAllowedExtension_def)
  finally show ?thesis
    by (simp add: m kFilters_lower)
qed

lemma iterate_filesUnder:
  "map fst (filter listed (filesUnder h dir e)) =
     (if h then [] else iterate kFilters {Files} True dir e)"
proof (induction h dir e rule: filesUnder.induct)
  case (1 h dir name hidden)
  show ?case
    by (simp add: listed_def matchesFilters_kFilters)
next
  case (2 h dir name hidden es)
  have "map fst (filter listed (filesUnder h dir (Dir name hidden es))) =
      concat (map (\<lambda>e. map fst (filter listed (filesUnder (h \<or> hidden) (joinPath dir name) e))) es)"
    by (simp add: filter_concat map_concat comp_def)
  also have "\<dots> =
      concat (map (\<lambda>e. if h \<or> hidden then [] else iterate kFilters {Files} True (joinPath dir name) e) es)"
    using 2 by (simp cong: map_cong)
  also have "\<dots> = (if h then [] else iterate kFilters {Files} True dir (Dir name hidden es))"
    by (induction es) auto
  finally show ?case .
qed

lemma QDirIterator_regularFiles:
  "QDirIterator root kFilters {Files} True es =
     map fst (filter listed (regularFiles root es))"
proof -
  have "map fst (filter listed (regularFiles root es)) =
      concat (map (\<lambda>e. map fst (filter listed (filesUnder False root e))) es)"
    by (simp add: regularFiles_def filter_concat map_concat comp_def)
  also have "\<dots> = concat (map (iterate kFilters {Files} True root) es)"
    by (simp add: iterate_filesUnder)
  finally show ?thesis
    by (simp add: QDirIterator_def)
qed

lemma trackSet_fold_addTrack: "trackSet (fold addTrack ps s) = trackSet s \<union> set ps"
  by (induction ps arbitrary: s) (auto simp: addTrack_def)

lemma exampleFolder_files:
  "regularFiles ''/m'' exampleFolder =
     [(''/m/song.mp3'', ''song.mp3'', False), (''/m/sub/SONG.MP3'', ''SONG.MP3'', False),
      (''/m/notes.txt'', ''notes.txt'', False)]"
  by code_simp

lemma exampleFolder_scan:
  "count (scanFolder ''/m'' exampleFolder initial) = 2"
  "map filePath (model (scanFolder ''/m'' exampleFolder initial)) =
     [''/m/song.mp3'', ''/m/sub/SONG.MP3'']"
  by code_simp+

text \<open>
  Claim C7, as the code has it. The iterator of \<^const>\<open>scanFolder\<close> is given the six
  name filters, the filter flag \<open>Files\<close> alone, and the flag for sub-folders. It returns,
  in order, the regular files under the root that are not hidden and do not lie below a
  hidden directory and whose extension, lower-cased, is one of mp3, flac, wav, ogg, m4a,
  aac; \<^const>\<open>addTrack\<close> is called for exactly these. The folder with \<open>song.mp3\<close>,
  \<open>SONG.MP3\<close> and \<open>notes.txt\<close> gives a catalog of two tracks.
\<close>

theorem scanFolder_adds_listed_files:
  "QDirIterator root kFilters {Files} True es = map fst (filter listed (regularFiles root es))
   \<and> scanFolder root es s = fold addTrack (map fst (filter listed (regularFiles root es))) s
   \<and> trackSet (scanFolder root es s) =
       trackSet s \<union> fst ` {f \<in> set (regularFiles root es). listed f}
   \<and> (listed (p, n, h) \<longleftrightarrow>
        \<not> h \<and> suffix_of (toLower n) \<in> {''mp3'', ''flac'', ''wav'', ''ogg'', ''m4a'', ''aac''})
   \<and> regularFiles ''/m'' exampleFolder =
       [(''/m/song.mp3'', ''song.mp3'', False), (''/m/sub/SONG.MP3'', ''SONG.MP3'', False),
        (''/m/notes.txt'', ''notes.txt'', False)]
   \<and> count (scanFolder ''/m'' exampleFolder initial) = 2
   \<and> map filePath (model (scanFolder ''/m'' exampleFolder initial)) =
       [''/m/song.mp3'', ''/m/sub/SONG.MP3'']"
proof -
  have a: "QDirIterator root kFilters {Files} True es =
      map fst (filter listed (regularFiles root es))"
    by (rule QDirIterator_regularFiles)
  then have b: "scanFolder root es s =
      fold addTrack (map fst (filter listed (regularFiles root es))) s"
    by (simp add: scanFolder_def)
  have c: "trackSet (scanFolder root es s) =
      trackSet s \<union> fst ` {f \<in> set (regularFiles root es). listed f}"
    by (simp add: b trackSet_fold_addTrack)
  have d: "listed (p, n, h) \<longleftrightarrow>
      \<not> h \<and> suffix_of (toLower n) \<in> {''mp3'', ''flac'', ''wav'', ''ogg'', ''m4a'', ''aac''}"
    by (simp add: listed_def hasAllowedExtension_def allowList_def)
  from a b c d exampleFolder_files exampleFolder_scan show ?thesis
    by blast
qed

text \<open>
  Claim C7 as the specification words it fails on hidden entries: a hidden \<open>.intro.mp3\<close>
  and an \<open>a.ogg\<close> inside a hidden folder are regular files under the root with allowed
  extensions, but the iterator, asked for \<open>Files\<close> without \<open>Hidden\<close>, returns neither,
  and the scan adds no track.
\<close>

theorem scanFolder_hidden_counterexample:
  "regularFiles ''/m'' [File ''.intro.mp3'' True, Dir ''.cache'' True [File ''a.ogg'' False]] =
     [(''/m/.intro.mp3'', ''.intro.mp3'', True), (''/m/.cache/a.ogg'', ''a.ogg'', True)]
   \<and> hasAllowedExtension ''.intro.mp3''
   \<and> hasAllowedExtension ''a.ogg''
   \<and> QDirIterator ''/m'' kFilters {Files} True
        [File ''.intro.mp3'' True, Dir ''.cache'' True [File ''a.ogg'' False]] = []
   \<and> count (scanFolder ''/m''
        [File ''.intro.mp3'' True, Dir ''.cache'' True [File ''a.ogg'' False]] initial) = 0"
  by code_simp

section \<open>Claims about the search filter\<close>

lemma query_song_title:
  "split_SkipEmptyParts (CHR '' '') (normalizeText ''song title'') = [''song'', ''title'']"
  by code_simp

lemma query_empty: "split_SkipEmptyParts (CHR '' '') (normalizeText []) = []"
  by code_simp

lemma contains_examples:
  "contains ''my song title.mp3'' ''song''"
  "contains ''my song title.mp3'' ''title''"
  "\<not> contains ''my other track.mp3'' ''song''"
  by code_simp+

lemma filterAcceptsRow_iff:
  "filterAcceptsRow toks t \<longleftrightarrow>
     toks = [] \<or> searchKey t = [] \<or> (\<forall>token\<in>set toks. contains (searchKey t) token)"
  by (simp add: filterAcceptsRow_def Let_def list_all_iff)

subsection \<open>Every row of the catalog has a search key\<close>

lemma normalizeText_not_Nil:
  assumes "c \<in> set x" and "\<not> isSpace (norm_char c)"
  shows "normalizeText x \<noteq> []"
proof -
  from assms have "\<exists>y\<in>set (map norm_char x). \<not> isSpace y"
    by auto
  then have "filter (\<lambda>c. \<not> isSpace c) (map norm_char x) \<noteq> []"
    by (simp only: filter_empty_conv not_all simp_thms) blast
  moreover have "filter (\<lambda>c. \<not> isSpace c) (normalizeText x) =
      filter (\<lambda>c. \<not> isSpace c) (map norm_char x)"
    using normalizeText_letters [of x] by (simp only: replace_toLower_norm)
  ultimately have "filter (\<lambda>c. \<not> isSpace c) (normalizeText x) \<noteq> []"
    by simp
  then show ?thesis by auto
qed

lemma extension_last:
  assumes "hasAllowedExtension name"
  shows "name \<noteq> [] \<and> toLower_char (last name) \<in> set ''3cvga''"
proof -
  from assms obtain e where e: "e \<in> set allowList" and s: "suffix_of (toLower name) = e"
    by (auto simp: hasAllowedExtension_def)
  from e have ne: "e \<noteq> []" and nodot: "CHR ''.'' \<notin> set e" and l: "last e \<in> set ''3cvga''"
    by (auto simp: allowList_def)
  from suffix_dot_iff [OF ne nodot, of "toLower name"] s
  obtain pre where p: "toLower name = pre @ CHR ''.'' # e"
    by (auto simp: suffix_def)
  with ne have "last (toLower name) = last e" and n: "name \<noteq> []"
    by (auto simp: toLower_def)
  with l have "toLower_char (last name) \<in> set ''3cvga''"
    by (simp add: toLower_def last_map)
  with n show ?thesis by simp
qed

lemma key_char:
  assumes "toLower_char z \<in> set ''3cvga''"
  shows "z \<noteq> CHR ''/'' \<and> \<not> isSpace (norm_char z)"
proof -
  have "toLower_char (CHR ''/'') = CHR ''/''"
    by (simp add: toLower_char_def)
  with assms have "z \<noteq> CHR ''/''"
    by auto
  moreover from assms have "\<not> isSpace (norm_char z)"
    by (auto simp: norm_char_def Let_def isSpace_def)
  ultimately show ?thesis by simp
qed

lemma last_in_fileName: "p \<noteq> [] \<Longrightarrow> last p \<noteq> CHR ''/'' \<Longrightarrow> last p \<in> set (fileName p)"
proof -
  assume "p \<noteq> []" and l: "last p \<noteq> CHR ''/''"
  then obtain ys y where p: "p = ys @ [y]"
    by (cases p rule: rev_cases) auto
  with l have "y \<noteq> CHR ''/''"
    by simp
  then have "takeWhile (\<lambda>c. c \<noteq> CHR ''/'') (rev p) =
      y # takeWhile (\<lambda>c. c \<noteq> CHR ''/'') (rev ys)"
    by (simp add: p)
  then show ?thesis
    by (simp add: fileName_def p)
qed

lemma last_joinPath: "name \<noteq> [] \<Longrightarrow> last (joinPath dir name) = last name"
  by (simp add: joinPath_def)

lemma iterate_matches:
  "p \<in> set (iterate nf fl sub dir e) \<Longrightarrow> \<exists>d n. p = joinPath d n \<and> matchesFilters nf fl n"
proof (induction nf fl sub dir e rule: iterate.induct)
  case (1 nf fl sub dir name hidden)
  then show ?case by (auto split: if_splits)
next
  case (2 nf fl sub dir name hidden es)
  then show ?case by (fastforce split: if_splits)
qed

lemma scanned_path_key:
  assumes "p \<in> set (QDirIterator path kFilters {Files} True es)"
  shows "normalizeText (completeBaseName p @ '' '' @ fileName p @ '' '' @ absolutePath p) \<noteq> []"
proof -
  from assms obtain d n where p: "p = joinPath d n" and m: "matchesFilters kFilters {Files} n"
    using iterate_matches by (fastforce simp: QDirIterator_def)
  from m have "hasAllowedExtension n"
    by (simp add: matchesFilters_kFilters)
  then have n: "n \<noteq> []" and l: "toLower_char (last n) \<in> set ''3cvga''"
    using extension_last by blast+
  from p n have lp: "last p = last n" and pn: "p \<noteq> []"
    by (simp_all add: last_joinPath joinPath_not_Nil)
  from key_char [OF l] lp have k: "last p \<noteq> CHR ''/''" "\<not> isSpace (norm_char (last p))"
    by simp_all
  from last_in_fileName [OF pn k(1)]
  have "last p \<in> set (completeBaseName p @ '' '' @ fileName p @ '' '' @ absolutePath p)"
    by simp
  then show ?thesis
    using k(2) by (rule normalizeText_not_Nil)
qed

lemma keys_addTrack:
  "\<forall>t\<in>set (model s). searchKey t \<noteq> [] \<Longrightarrow>
   normalizeText (completeBaseName p @ '' '' @ fileName p @ '' '' @ absolutePath p) \<noteq> [] \<Longrightarrow>
   \<forall>t\<in>set (model (addTrack p s)). searchKey t \<noteq> []"
  by (auto simp: addTrack_def)

lemma keys_fold_addTrack:
  assumes "\<forall>t\<in>set (model s). searchKey t \<noteq> []"
    and "\<forall>p\<in>set ps.
      normalizeText (completeBaseName p @ '' '' @ fileName p @ '' '' @ absolutePath p) \<noteq> []"
  shows "\<forall>t\<in>set (model (fold addTrack ps s)). searchKey t \<noteq> []"
  using assms
proof (induction ps arbitrary: s)
  case Nil
  then show ?case by simp
next
  case (Cons a ps)
  from Cons.prems have "\<forall>t\<in>set (model (addTrack a s)). searchKey t \<noteq> []"
    by (intro keys_addTrack) simp_all
  moreover from Cons.prems have "\<forall>p\<in>set ps.
      normalizeText (completeBaseName p @ '' '' @ fileName p @ '' '' @ absolutePath p) \<noteq> []"
    by simp
  ultimately have "\<forall>t\<in>set (model (fold addTrack ps (addTrack a s))). searchKey t \<noteq> []"
    by (rule Cons.IH)
  then show ?case by simp
qed

lemma keys_scanFolder:
  "\<forall>t\<in>set (model s). searchKey t \<noteq> [] \<Longrightarrow>
   \<forall>t\<in>set (model (scanFolder path es s)). searchKey t \<noteq> []"
  unfolding scanFolder_def using scanned_path_key by (intro keys_fold_addTrack) auto

lemma reachable_keys: "reachable s \<Longrightarrow> \<forall>t\<in>set (model s). searchKey t \<noteq> []"
proof (induction rule: reachable.induct)
  case r_initial
  show ?case by (simp add: initial_def)
next
  case (r_scanFolder s path es i)
  then have "\<forall>t\<in>set (model (scanFolder path es s)). searchKey t \<noteq> []"
    by (simp add: keys_scanFolder)
  then show ?case by simp
next
  case (r_setFilterText s q i)
  then show ?case by (simp add: setFilterText_def)
next
  case (r_currentChanged s i)
  then show ?case by simp
next
  case (r_playerState s st)
  then show ?case by simp
next
  case (r_playSelected s)
  then show ?case by (simp add: playSelected_def playIndex_frame)
next
  case (r_playPause s)
  then show ?case by (simp add: playPause_frame)
next
  case (r_playNext s g)
  then show ?case by (simp add: playNext_frame)
next
  case (r_playPrevious s)
  then show ?case by (simp add: playPrevious_frame)
next
  case (r_stop s)
  then show ?case by (simp add: stop_def)
next
  case (r_handleMediaStatus s status g)
  then show ?case by (simp add: handleMediaStatus_frame)
next
  case (r_toggleShuffle s)
  then show ?case by (simp add: toggleShuffle_def)
next
  case (r_cycleRepeat s)
  then show ?case by (simp add: cycleRepeat_def)
qed

text \<open>
  Claim C1. After \<^const>\<open>setFilterText\<close> the tokens are the pieces of the normalised
  query between spaces, without the empty ones, and the catalog is what it was. Every row
  of the catalog of a reachable state has a non-empty search key (the key holds the file
  name, which ends in one of the six extensions), and such a row is accepted when there are
  no tokens, and otherwise exactly when its search key contains every token as a contiguous
  part; so a row that misses a token is rejected. The same holds of any row with a
  non-empty key. For the query \<open>song title\<close> the key \<open>my song title.mp3\<close> is accepted
  and the key \<open>my other track.mp3\<close> is rejected, and the empty query accepts every row.
\<close>

theorem setFilterText_filterAcceptsRow:
  "tokens (setFilterText q s) = filter (\<lambda>w. w \<noteq> []) (split (CHR '' '') (normalizeText q))
   \<and> filterText (setFilterText q s) = normalizeText q
   \<and> model (setFilterText q s) = model s
   \<and> (reachable s \<and> t \<in> set (model s) \<longrightarrow>
        searchKey t \<noteq> []
        \<and> (filterAcceptsRow (tokens (setFilterText q s)) t \<longleftrightarrow>
             tokens (setFilterText q s) = []
             \<or> (\<forall>token\<in>set (tokens (setFilterText q s)). contains (searchKey t) token)))
   \<and> (reachable s \<and> t \<in> set (model s) \<and> token \<in> set (tokens (setFilterText q s))
        \<and> \<not> contains (searchKey t) token \<longrightarrow>
        \<not> filterAcceptsRow (tokens (setFilterText q s)) t)
   \<and> (searchKey t \<noteq> [] \<longrightarrow>
        (filterAcceptsRow toks t \<longleftrightarrow>
           toks = [] \<or> (\<forall>token\<in>set toks. contains (searchKey t) token)))
   \<and> (contains k token \<longleftrightarrow> (\<exists>ps ss. k = ps @ token @ ss))
   \<and> filterAcceptsRow (tokens (setFilterText ''song title'' s))
        \<lparr>filePath = p, displayTitle = d, searchKey = ''my song title.mp3''\<rparr>
   \<and> \<not> filterAcceptsRow (tokens (setFilterText ''song title'' s))
        \<lparr>filePath = p, displayTitle = d, searchKey = ''my other track.mp3''\<rparr>
   \<and> filterAcceptsRow (tokens (setFilterText [] s)) t"
proof -
  have a: "tokens (setFilterText q s) = filter (\<lambda>w. w \<noteq> []) (split (CHR '' '') (normalizeText q))"
    by (simp add: setFilterText_def split_SkipEmptyParts_def)
  have b: "filterText (setFilterText q s) = normalizeText q"
    "model (setFilterText q s) = model s"
    by (simp_all add: setFilterText_def)
  have gen: "\<And>toks. searchKey t \<noteq> [] \<longrightarrow>
        (filterAcceptsRow toks t \<longleftrightarrow>
           toks = [] \<or> (\<forall>token\<in>set toks. contains (searchKey t) token))"
    by (simp add: filterAcceptsRow_iff)
  have key: "reachable s \<and> t \<in> set (model s) \<longrightarrow> searchKey t \<noteq> []"
    using reachable_keys [of s] by blast
  have c: "reachable s \<and> t \<in> set (model s) \<longrightarrow>
        searchKey t \<noteq> []
        \<and> (filterAcceptsRow (tokens (setFilterText q s)) t \<longleftrightarrow>
             tokens (setFilterText q s) = []
             \<or> (\<forall>token\<in>set (tokens (setFilterText q s)). contains (searchKey t) token))"
    using key gen [of "tokens (setFilterText q s)"] by blast
  have d: "reachable s \<and> t \<in> set (model s) \<and> token \<in> set (tokens (setFilterText q s))
        \<and> \<not> contains (searchKey t) token \<longrightarrow>
        \<not> filterAcceptsRow (tokens (setFilterText q s)) t"
    using c by auto
  have e: "contains k token \<longleftrightarrow> (\<exists>ps ss. k = ps @ token @ ss)"
    by (simp add: contains_def sublist_def)
  have f: "filterAcceptsRow (tokens (setFilterText ''song title'' s))
        \<lparr>filePath = p, displayTitle = d, searchKey = ''my song title.mp3''\<rparr>"
    by (simp add: setFilterText_def query_song_title filterAcceptsRow_iff contains_examples)
  have g: "\<not> filterAcceptsRow (tokens (setFilterText ''song title'' s))
        \<lparr>filePath = p, displayTitle = d, searchKey = ''my other track.mp3''\<rparr>"
    by (simp add: setFilterText_def query_song_title filterAcceptsRow_iff contains_examples)
  have h: "filterAcceptsRow (tokens (setFilterText [] s)) t"
    by (simp add: setFilterText_def query_empty filterAcceptsRow_iff)
  from a b c d gen [of toks] e f g h show ?thesis
    by blast
qed

theorem setFilterText_filterAcceptsRow_witness:
  "reachable scanned
   \<and> \<lparr>filePath = ''/m/sub/SONG.MP3'', displayTitle = ''SONG'',
       searchKey = ''song song.mp3 /m/sub''\<rparr> \<in> set (model scanned)
   \<and> tokens (setFilterText ''Sub  SONG'' scanned) = [''sub'', ''song'']
   \<and> filterAcceptsRow (tokens (setFilterText ''Sub  SONG'' scanned))
        \<lparr>filePath = ''/m/sub/SONG.MP3'', displayTitle = ''SONG'',
         searchKey = ''song song.mp3 /m/sub''\<rparr>
   \<and> \<lparr>filePath = ''/m/song.mp3'', displayTitle = ''song'',
       searchKey = ''song song.mp3 /m''\<rparr> \<in> set (model scanned)
   \<and> \<not> filterAcceptsRow (tokens (setFilterText ''Sub  SONG'' scanned))
        \<lparr>filePath = ''/m/song.mp3'', displayTitle = ''song'',
         searchKey = ''song song.mp3 /m''\<rparr>"
proof -
  let ?t1 = "\<lparr>filePath = ''/m/sub/SONG.MP3'', displayTitle = ''SONG'',
       searchKey = ''song song.mp3 /m/sub''\<rparr>"
  let ?t2 = "\<lparr>filePath = ''/m/song.mp3'', displayTitle = ''song'',
       searchKey = ''song song.mp3 /m''\<rparr>"
  have m: "?t1 \<in> set (model scanned)" "?t2 \<in> set (model scanned)"
    by (simp_all add: scanned_value)
  have toks: "tokens (setFilterText ''Sub  SONG'' scanned) = [''sub'', ''song'']"
    by code_simp
  have all: "\<forall>token\<in>set (tokens (setFilterText ''Sub  SONG'' scanned)).
      contains (searchKey ?t1) token"
    unfolding toks by code_simp
  from setFilterText_filterAcceptsRow [of "''Sub  SONG''" scanned ?t1] reachable_scanned m(1) all
  have a: "filterAcceptsRow (tokens (setFilterText ''Sub  SONG'' scanned)) ?t1"
    by blast
  have miss: "''sub'' \<in> set (tokens (setFilterText ''Sub  SONG'' scanned))
      \<and> \<not> contains (searchKey ?t2) ''sub''"
    unfolding toks by code_simp
  from setFilterText_filterAcceptsRow [of "''Sub  SONG''" scanned ?t2 "''sub''"]
    reachable_scanned m(2) miss
  have b: "\<not> filterAcceptsRow (tokens (setFilterText ''Sub  SONG'' scanned)) ?t2"
    by blast
  from reachable_scanned m toks a b show ?thesis
    by blast
qed

end
